theory Spec2Isabelle
  imports Complex_Main "HOL-Library.List_Lexorder"
begin

section \<open>Memory model\<close>

text \<open>
  The library works on heap-allocated \<^verbatim>\<open>cJSON\<close> structures linked by raw pointers
  (children, parent back-links, cached extremes) and on heap-allocated character buffers.
  A pointer is an optional address, \<open>None\<close> being \<^verbatim>\<open>NULL\<close>; the store maps addresses
  to structures and to buffers.  Every dereference of the source is a read of the store at the
  moment it happens, and a dereference of \<^verbatim>\<open>NULL\<close> or of a released address is a fault
  value instead of a result.
\<close>

datatype fault = NullDeref | Dangling | BadFree

type_synonym ptr = "nat option"

text \<open>
  Modelled from the spec: the header \<^verbatim>\<open>cJSON.h\<close> (the structure declaration and the
  \<^verbatim>\<open>cJSON_*\<close> type constants) is not among the sources.  Following section 3 of the
  specification the \<^verbatim>\<open>type\<close> word is the pair of a \<open>kind\<close>, a tagged variant over
  Null, False, True, Number, String, Array and Object that is unset in a bare node, and the
  orthogonal flag \<open>is_reference\<close> (\<^verbatim>\<open>cJSON_IsReference\<close>).  A test
  \<^verbatim>\<open>type == cJSON_Object\<close> of the source compares the whole word, so it holds when the
  kind is Object and the flag is clear.
\<close>

datatype kind =
  Unset | cJSON_False | cJSON_True | cJSON_NULL | cJSON_Number | cJSON_String
  | cJSON_Array | cJSON_Object

text \<open>
  The fields are those the source reads and writes.  \<open>isred\<close> only ever receives 0 or 1 and
  is a truth value here; \<open>count\<close>, \<open>index\<close>, \<open>valueint\<close> and \<open>vstrlen\<close> are C integers,
  kept as mathematical integers with the 32-bit wrap-around written out where the source
  does arithmetic on them; \<open>valuedouble\<close> is only stored and copied by the functions below.
  The field \<^verbatim>\<open>last\<close> is named \<open>last'\<close>.
\<close>

record cJSON =
  left :: ptr
  right :: ptr
  parent :: ptr
  root :: ptr
  first :: ptr
  last' :: ptr
  count :: int
  index :: int
  isred :: bool
  kind :: kind
  is_reference :: bool
  string :: ptr
  valuestring :: ptr
  vstrlen :: int
  valueint :: int
  valuedouble :: real

text \<open>
  The state of the program: the structures and the character buffers that are currently
  allocated, and the allocator behind the \<^verbatim>\<open>cJSON_malloc\<close>/\<^verbatim>\<open>cJSON_free\<close> hooks.  The
  allocator hands out the address \<open>brk\<close> and then advances it; it may refuse, returning
  \<^verbatim>\<open>NULL\<close>: \<open>avail\<close> is the number of requests it will still grant.  \<open>freed\<close> logs every
  address passed to \<^verbatim>\<open>cJSON_free\<close>, most recent first.
\<close>

record state =
  nodes :: "nat \<rightharpoonup> cJSON"
  bufs :: "nat \<rightharpoonup> string"
  brk :: nat
  avail :: nat
  freed :: "nat list"

text \<open>
  A computation either does not return (\<open>None\<close>), or stops with a fault, or returns a value.
\<close>

type_synonym 'a res = "(fault + 'a) option"

definition ret :: "'a \<Rightarrow> 'a res" where
  "ret x = Some (Inr x)"

definition crash :: "fault \<Rightarrow> 'a res" where
  "crash e = Some (Inl e)"

fun bnd :: "'a res \<Rightarrow> ('a \<Rightarrow> 'b res) \<Rightarrow> 'b res" where
  "bnd None f = None"
| "bnd (Some (Inl e)) f = Some (Inl e)"
| "bnd (Some (Inr x)) f = f x"

lemma bnd_bind:
  "bnd m g = Option.bind m (\<lambda>r. case r of Inl e \<Rightarrow> Some (Inl e) | Inr x \<Rightarrow> g x)"
  by (cases "(m, g)" rule: bnd.cases) auto

lemma bnd_mono [partial_function_mono]:
  assumes mf: "mono_option B" and mg: "\<And>y. mono_option (\<lambda>f. C y f)"
  shows "mono_option (\<lambda>f. bnd (B f) (\<lambda>y. C y f))"
  unfolding bnd_bind
  apply (rule bind_mono [OF mf])
  subgoal for y by (cases y) (auto intro: mg option.const_mono)
  done

text \<open>Reading a field through a pointer, and writing through a pointer.\<close>

definition get :: "state \<Rightarrow> ptr \<Rightarrow> (cJSON \<Rightarrow> 'a) \<Rightarrow> 'a res" where
  "get s p f =
     (case p of None \<Rightarrow> crash NullDeref
      | Some a \<Rightarrow> (case nodes s a of None \<Rightarrow> crash Dangling | Some n \<Rightarrow> ret (f n)))"

definition put :: "state \<Rightarrow> ptr \<Rightarrow> (cJSON \<Rightarrow> cJSON) \<Rightarrow> state res" where
  "put s p f =
     (case p of None \<Rightarrow> crash NullDeref
      | Some a \<Rightarrow> (case nodes s a of None \<Rightarrow> crash Dangling
                   | Some n \<Rightarrow> ret (s\<lparr>nodes := (nodes s)(a \<mapsto> f n)\<rparr>)))"

text \<open>
  Reading a \<^verbatim>\<open>char *\<close>: \<^verbatim>\<open>NULL\<close> is passed on as such (the comparison below tests for it),
  the bytes of an allocated buffer are its contents up to the terminator.
\<close>

definition rdstr :: "state \<Rightarrow> ptr \<Rightarrow> string option res" where
  "rdstr s p =
     (case p of None \<Rightarrow> ret None
      | Some b \<Rightarrow> (case bufs s b of None \<Rightarrow> crash Dangling | Some str \<Rightarrow> ret (Some str)))"

text \<open>The allocator seam.\<close>

definition cJSON_malloc :: "state \<Rightarrow> ptr \<times> state" where
  "cJSON_malloc s =
     (if avail s = 0 then (None, s)
      else (Some (brk s), s\<lparr>brk := Suc (brk s), avail := avail s - 1\<rparr>))"

definition free_node :: "state \<Rightarrow> ptr \<Rightarrow> state res" where
  "free_node s p =
     (case p of None \<Rightarrow> ret s
      | Some a \<Rightarrow> (case nodes s a of None \<Rightarrow> crash BadFree
                   | Some n \<Rightarrow> ret (s\<lparr>nodes := (nodes s)(a := None), freed := a # freed s\<rparr>)))"

definition free_buf :: "state \<Rightarrow> ptr \<Rightarrow> state res" where
  "free_buf s p =
     (case p of None \<Rightarrow> ret s
      | Some a \<Rightarrow> (case bufs s a of None \<Rightarrow> crash BadFree
                   | Some n \<Rightarrow> ret (s\<lparr>bufs := (bufs s)(a := None), freed := a # freed s\<rparr>)))"

text \<open>32-bit two's complement wrap-around of \<^verbatim>\<open>int\<close> arithmetic.\<close>

definition int32 :: "int \<Rightarrow> int" where
  "int32 x = (x + 2147483648) mod 4294967296 - 2147483648"


section \<open>String comparison and duplication\<close>

text \<open>
  \<^verbatim>\<open>tolower\<close> in the C locale, on byte values.  \<open>peek\<close> is the byte a \<^verbatim>\<open>char *\<close> points
  at: the head of the remaining bytes, or the terminator 0 at their end.
\<close>

definition tolower :: "int \<Rightarrow> int" where
  "tolower c = (if 65 \<le> c \<and> c \<le> 90 then c + 32 else c)"

definition peek :: "string \<Rightarrow> int" where
  "peek s = (case s of [] \<Rightarrow> 0 | c # _ \<Rightarrow> of_char c)"

function strcasecmp_loop :: "string \<Rightarrow> string \<Rightarrow> int" where
  "strcasecmp_loop s1 s2 =
     (if tolower (peek s1) = tolower (peek s2)
      then (if peek s1 = 0 then 0 else strcasecmp_loop (tl s1) (tl s2))
      else tolower (peek s1) - tolower (peek s2))"
  by pat_completeness auto
termination
  by (relation "measure (\<lambda>(s1, s2). length s1)") (auto simp: peek_def split: list.splits)

declare strcasecmp_loop.simps [simp del]

definition cJSON_strcasecmp :: "string option \<Rightarrow> string option \<Rightarrow> int" where
  "cJSON_strcasecmp s1 s2 =
     (case s1 of None \<Rightarrow> (if s1 = s2 then 0 else 1)
      | Some a \<Rightarrow> (case s2 of None \<Rightarrow> 1 | Some b \<Rightarrow> strcasecmp_loop a b))"

text \<open>
  \<^verbatim>\<open>cJSON_strdup\<close>: \<^verbatim>\<open>strlen\<close> dereferences its argument; the copy holds the bytes before
  the first terminator.
\<close>

definition c_str :: "string \<Rightarrow> string" where
  "c_str str = takeWhile (\<lambda>c. of_char c \<noteq> (0::int)) str"

definition cJSON_strdup :: "state \<Rightarrow> string option \<Rightarrow> (ptr \<times> state) res" where
  "cJSON_strdup s str =
     (case str of None \<Rightarrow> crash NullDeref
      | Some cs \<Rightarrow>
          (case cJSON_malloc s of
             (None, s1) \<Rightarrow> ret (None, s1)
           | (Some a, s1) \<Rightarrow> ret (Some a, s1\<lparr>bufs := (bufs s1)(a \<mapsto> c_str cs)\<rparr>)))"


section \<open>The red-black tree engine\<close>

text \<open>
  \<^verbatim>\<open>tree->type != cJSON_Object && tree->type != cJSON_Array\<close> is the negation of
  \<open>is_container\<close>; \<^verbatim>\<open>tree->type == cJSON_Object\<close> is \<open>is_object\<close>.
\<close>

definition is_object :: "cJSON \<Rightarrow> bool" where
  "is_object n \<longleftrightarrow> kind n = cJSON_Object \<and> \<not> is_reference n"

definition is_array :: "cJSON \<Rightarrow> bool" where
  "is_array n \<longleftrightarrow> kind n = cJSON_Array \<and> \<not> is_reference n"

definition is_container :: "cJSON \<Rightarrow> bool" where
  "is_container n \<longleftrightarrow> is_object n \<or> is_array n"

definition set_parent :: "ptr \<Rightarrow> ptr \<Rightarrow> state \<Rightarrow> state res" where
  "set_parent parent' node s = put s node (\<lambda>n. n\<lparr>parent := parent'\<rparr>)"

definition set_child :: "ptr \<Rightarrow> ptr \<Rightarrow> bool \<Rightarrow> state \<Rightarrow> state res" where
  "set_child child node isleft s =
     (if isleft then put s node (\<lambda>n. n\<lparr>left := child\<rparr>)
      else put s node (\<lambda>n. n\<lparr>right := child\<rparr>))"

partial_function (option) child_first :: "state \<Rightarrow> ptr \<Rightarrow> ptr res" where
  "child_first s node =
     bnd (get s node left) (\<lambda>l.
       if l \<noteq> None then child_first s l else ret node)"

declare child_first.simps [code]

partial_function (option) child_last :: "state \<Rightarrow> ptr \<Rightarrow> ptr res" where
  "child_last s node =
     bnd (get s node right) (\<lambda>r.
       if r \<noteq> None then child_last s r else ret node)"

declare child_last.simps [code]

definition obj_first :: "state \<Rightarrow> ptr \<Rightarrow> ptr res" where
  "obj_first s obj =
     bnd (get s obj is_container) (\<lambda>c.
       if \<not> c then ret None else get s obj first)"

definition obj_last :: "state \<Rightarrow> ptr \<Rightarrow> ptr res" where
  "obj_last s obj =
     bnd (get s obj is_container) (\<lambda>c.
       if \<not> c then ret None else get s obj last')"

text \<open>
  The upward loops of \<^verbatim>\<open>child_next\<close> and \<^verbatim>\<open>child_prev\<close>:
  \<^verbatim>\<open>while((parent = node->parent) && parent->right == node) node = parent;\<close>
\<close>

partial_function (option) child_next_up :: "state \<Rightarrow> ptr \<Rightarrow> ptr res" where
  "child_next_up s node =
     bnd (get s node parent) (\<lambda>parent'.
       if parent' = None then ret parent'
       else bnd (get s parent' right) (\<lambda>pr.
         if pr = node then child_next_up s parent' else ret parent'))"

declare child_next_up.simps [code]

definition child_next :: "state \<Rightarrow> ptr \<Rightarrow> ptr res" where
  "child_next s node =
     bnd (get s node right) (\<lambda>r.
       if r \<noteq> None then child_first s r else child_next_up s node)"

partial_function (option) child_prev_up :: "state \<Rightarrow> ptr \<Rightarrow> ptr res" where
  "child_prev_up s node =
     bnd (get s node parent) (\<lambda>parent'.
       if parent' = None then ret parent'
       else bnd (get s parent' left) (\<lambda>pl.
         if pl = node then child_prev_up s parent' else ret parent'))"

declare child_prev_up.simps [code]

definition child_prev :: "state \<Rightarrow> ptr \<Rightarrow> ptr res" where
  "child_prev s node =
     bnd (get s node left) (\<lambda>l.
       if l \<noteq> None then child_last s l else child_prev_up s node)"

text \<open>
  One comparison of \<^verbatim>\<open>tree_lookup\<close>: the value of \<^verbatim>\<open>res\<close> for the probe
  (\<open>key\<close>, \<open>idx\<close>) at the node \<open>object\<close>.
\<close>

definition lookup_res :: "state \<Rightarrow> ptr \<Rightarrow> string option \<Rightarrow> int \<Rightarrow> ptr \<Rightarrow> int res" where
  "lookup_res s tree key idx object =
     bnd (get s tree is_object) (\<lambda>obj.
       if obj then
         bnd (get s object string) (\<lambda>str.
         bnd (rdstr s str) (\<lambda>k. ret (cJSON_strcasecmp key k)))
       else
         bnd (get s object index) (\<lambda>oi.
           ret (if oi > idx then 1 else if oi < idx then - 1 else 0)))"

text \<open>
  The loop of \<^verbatim>\<open>tree_lookup\<close>.  The out-parameters \<^verbatim>\<open>*parent\<close> and \<^verbatim>\<open>*isleft\<close> are
  returned with the result; a caller that passes \<^verbatim>\<open>NULL\<close> for them drops them.
\<close>

partial_function (option) tree_lookup_loop ::
  "state \<Rightarrow> ptr \<Rightarrow> string option \<Rightarrow> int \<Rightarrow> ptr \<Rightarrow> ptr \<Rightarrow> bool \<Rightarrow> (ptr \<times> ptr \<times> bool) res"
where
  "tree_lookup_loop s tree key idx object parent' isleft =
     (if object = None then ret (None, parent', isleft)
      else
        bnd (lookup_res s tree key idx object) (\<lambda>res.
          if res = 0 then ret (object, parent', isleft)
          else if res > 0 then
            bnd (get s object left) (\<lambda>l. tree_lookup_loop s tree key idx l object True)
          else
            bnd (get s object right) (\<lambda>r. tree_lookup_loop s tree key idx r object False)))"

declare tree_lookup_loop.simps [code]

text \<open>
  On the early return for a node that is no container the out-parameters are left unwritten;
  no caller reads them then, and the model returns \<^verbatim>\<open>NULL\<close> and 0 for them.
\<close>

definition tree_lookup :: "state \<Rightarrow> string option \<Rightarrow> int \<Rightarrow> ptr \<Rightarrow> (ptr \<times> ptr \<times> bool) res" where
  "tree_lookup s key idx tree =
     bnd (get s tree is_container) (\<lambda>c.
       if \<not> c then ret (None, None, False)
       else bnd (get s tree root) (\<lambda>object.
         tree_lookup_loop s tree key idx object None False))"

definition tree_rotate_left :: "ptr \<Rightarrow> ptr \<Rightarrow> state \<Rightarrow> state res" where
  "tree_rotate_left node tree s =
     bnd (get s node right) (\<lambda>q.
     bnd (get s node parent) (\<lambda>parent'.
     bnd (if parent' \<noteq> None then
            bnd (get s parent' left) (\<lambda>pl.
              if pl = node then put s parent' (\<lambda>n. n\<lparr>left := q\<rparr>)
              else put s parent' (\<lambda>n. n\<lparr>right := q\<rparr>))
          else put s tree (\<lambda>n. n\<lparr>root := q\<rparr>)) (\<lambda>s1.
     bnd (set_parent parent' q s1) (\<lambda>s2.
     bnd (set_parent q node s2) (\<lambda>s3.
     bnd (get s3 q left) (\<lambda>ql.
     bnd (put s3 node (\<lambda>n. n\<lparr>right := ql\<rparr>)) (\<lambda>s4.
     bnd (get s4 node right) (\<lambda>pr.
     bnd (if pr \<noteq> None then set_parent node pr s4 else ret s4) (\<lambda>s5.
     put s5 q (\<lambda>n. n\<lparr>left := node\<rparr>))))))))))"

definition tree_rotate_right :: "ptr \<Rightarrow> ptr \<Rightarrow> state \<Rightarrow> state res" where
  "tree_rotate_right node tree s =
     bnd (get s node left) (\<lambda>q.
     bnd (get s node parent) (\<lambda>parent'.
     bnd (if parent' \<noteq> None then
            bnd (get s parent' left) (\<lambda>pl.
              if pl = node then put s parent' (\<lambda>n. n\<lparr>left := q\<rparr>)
              else put s parent' (\<lambda>n. n\<lparr>right := q\<rparr>))
          else put s tree (\<lambda>n. n\<lparr>root := q\<rparr>)) (\<lambda>s1.
     bnd (set_parent parent' q s1) (\<lambda>s2.
     bnd (set_parent q node s2) (\<lambda>s3.
     bnd (get s3 q right) (\<lambda>qr.
     bnd (put s3 node (\<lambda>n. n\<lparr>left := qr\<rparr>)) (\<lambda>s4.
     bnd (get s4 node left) (\<lambda>pl.
     bnd (if pl \<noteq> None then set_parent node pl s4 else ret s4) (\<lambda>s5.
     put s5 q (\<lambda>n. n\<lparr>right := node\<rparr>))))))))))"

text \<open>\<^verbatim>\<open>p && p->isred & 1\<close>\<close>

definition is_red :: "state \<Rightarrow> ptr \<Rightarrow> bool res" where
  "is_red s p = (if p = None then ret False else get s p isred)"

text \<open>
  The recolouring loop of \<^verbatim>\<open>tree_insert_item\<close>, one iteration per unfolding.
\<close>

partial_function (option) insert_fixup :: "state \<Rightarrow> ptr \<Rightarrow> ptr \<Rightarrow> state res" where
  "insert_fixup s node tree =
     bnd (get s node parent) (\<lambda>parent'.
     bnd (is_red s parent') (\<lambda>pred.
     if \<not> pred then ret s
     else
       bnd (get s parent' parent) (\<lambda>grandpa.
       bnd (get s grandpa left) (\<lambda>gl.
       if parent' = gl then
         bnd (get s grandpa right) (\<lambda>uncle.
         bnd (is_red s uncle) (\<lambda>ured.
         if ured then
           bnd (put s parent' (\<lambda>n. n\<lparr>isred := False\<rparr>)) (\<lambda>s1.
           bnd (put s1 uncle (\<lambda>n. n\<lparr>isred := False\<rparr>)) (\<lambda>s2.
           bnd (put s2 grandpa (\<lambda>n. n\<lparr>isred := True\<rparr>)) (\<lambda>s3.
           insert_fixup s3 grandpa tree)))
         else
           bnd (get s parent' right) (\<lambda>pr.
           bnd (if node = pr then
                  bnd (tree_rotate_left parent' tree s) (\<lambda>s1.
                  bnd (get s1 parent' parent) (\<lambda>parent''. ret (s1, parent', parent'')))
                else ret (s, node, parent')) (\<lambda>(s1, node1, parent1).
           bnd (put s1 parent1 (\<lambda>n. n\<lparr>isred := False\<rparr>)) (\<lambda>s2.
           bnd (put s2 grandpa (\<lambda>n. n\<lparr>isred := True\<rparr>)) (\<lambda>s3.
           bnd (tree_rotate_right grandpa tree s3) (\<lambda>s4.
           insert_fixup s4 node1 tree)))))))
       else
         bnd (get s grandpa left) (\<lambda>uncle.
         bnd (is_red s uncle) (\<lambda>ured.
         if ured then
           bnd (put s parent' (\<lambda>n. n\<lparr>isred := False\<rparr>)) (\<lambda>s1.
           bnd (put s1 uncle (\<lambda>n. n\<lparr>isred := False\<rparr>)) (\<lambda>s2.
           bnd (put s2 grandpa (\<lambda>n. n\<lparr>isred := True\<rparr>)) (\<lambda>s3.
           insert_fixup s3 grandpa tree)))
         else
           bnd (get s parent' left) (\<lambda>pl.
           bnd (if node = pl then
                  bnd (tree_rotate_right parent' tree s) (\<lambda>s1.
                  bnd (get s1 parent' parent) (\<lambda>parent''. ret (s1, parent', parent'')))
                else ret (s, node, parent')) (\<lambda>(s1, node1, parent1).
           bnd (put s1 parent1 (\<lambda>n. n\<lparr>isred := False\<rparr>)) (\<lambda>s2.
           bnd (put s2 grandpa (\<lambda>n. n\<lparr>isred := True\<rparr>)) (\<lambda>s3.
           bnd (tree_rotate_left grandpa tree s3) (\<lambda>s4.
           insert_fixup s4 node1 tree)))))))))))"

declare insert_fixup.simps [code]


text \<open>
  The linking part of \<^verbatim>\<open>tree_insert_item\<close>, from \<^verbatim>\<open>node->left = NULL\<close> to the end of
  the \<^verbatim>\<open>if(parent) ... else ...\<close> statement: \<open>node\<close> becomes a red leaf in the slot
  (\<open>parent'\<close>, \<open>isleft\<close>) that the lookup has found.
\<close>

definition insert_link :: "ptr \<Rightarrow> ptr \<Rightarrow> ptr \<Rightarrow> bool \<Rightarrow> state \<Rightarrow> state res" where
  "insert_link node tree parent' isleft s =
     bnd (put s node (\<lambda>n. n\<lparr>left := None\<rparr>)) (\<lambda>s1.
     bnd (put s1 node (\<lambda>n. n\<lparr>right := None\<rparr>)) (\<lambda>s2.
     bnd (put s2 node (\<lambda>n. n\<lparr>isred := True\<rparr>)) (\<lambda>s3.
     bnd (set_parent parent' node s3) (\<lambda>s4.
     if parent' \<noteq> None then
       bnd (get s4 tree first) (\<lambda>tf.
       bnd (if isleft \<and> parent' = tf then put s4 tree (\<lambda>n. n\<lparr>first := node\<rparr>)
            else bnd (get s4 tree last') (\<lambda>tl.
              if parent' = tl then put s4 tree (\<lambda>n. n\<lparr>last' := node\<rparr>)
              else ret s4)) (\<lambda>s5.
       set_child node parent' isleft s5))
     else
       bnd (put s4 tree (\<lambda>n. n\<lparr>root := node\<rparr>)) (\<lambda>s5.
       bnd (put s5 tree (\<lambda>n. n\<lparr>first := node\<rparr>)) (\<lambda>s6.
       put s6 tree (\<lambda>n. n\<lparr>last' := node\<rparr>)))))))"

text \<open>
  \<^verbatim>\<open>tree_insert_item\<close>: returns the colliding member, or \<^verbatim>\<open>NULL\<close> after linking
  \<open>node\<close> and rebalancing (also when \<open>tree\<close> is no container).  The bytes behind
  \<^verbatim>\<open>node->string\<close> are read only where the lookup compares keys, in an Object.
\<close>

definition tree_insert_item :: "ptr \<Rightarrow> ptr \<Rightarrow> state \<Rightarrow> (ptr \<times> state) res" where
  "tree_insert_item node tree s =
     bnd (get s tree is_container) (\<lambda>c.
     if \<not> c then ret (None, s)
     else
       bnd (get s node string) (\<lambda>nstr.
       bnd (get s tree is_object) (\<lambda>obj.
       bnd (if obj then rdstr s nstr else ret None) (\<lambda>key.
       bnd (get s node index) (\<lambda>idx.
       bnd (tree_lookup s key idx tree) (\<lambda>(item, parent', isleft).
       if item \<noteq> None then ret (item, s)
       else
         bnd (insert_link node tree parent' isleft s) (\<lambda>s7.
         bnd (insert_fixup s7 node tree) (\<lambda>s8.
         bnd (get s8 tree root) (\<lambda>rt.
         bnd (put s8 rt (\<lambda>n. n\<lparr>isred := False\<rparr>)) (\<lambda>s9.
         ret (None, s9)))))))))))"

text \<open>\<^verbatim>\<open>!p || p->isred == 0\<close>\<close>

definition null_or_black :: "state \<Rightarrow> ptr \<Rightarrow> bool res" where
  "null_or_black s p = (if p = None then ret True else bnd (get s p isred) (\<lambda>r. ret (\<not> r)))"

text \<open>
  \<^verbatim>\<open>(!sibling->left || sibling->left->isred == 0) &&
  (!sibling->right || sibling->right->isred == 0)\<close>, evaluated left to right.
\<close>

definition both_black :: "state \<Rightarrow> ptr \<Rightarrow> bool res" where
  "both_black s sibling =
     bnd (get s sibling left) (\<lambda>sl.
     bnd (null_or_black s sl) (\<lambda>lb.
     if \<not> lb then ret False
     else bnd (get s sibling right) (\<lambda>sr. null_or_black s sr)))"

text \<open>
  The \<^verbatim>\<open>do ... while(node->isred == 0)\<close> loop of \<^verbatim>\<open>tree_remove\<close>, one iteration per
  unfolding; it returns the state and the value of \<^verbatim>\<open>node\<close> at the exit.  In both branches
  the source takes \<^verbatim>\<open>parent->right\<close> for the sibling.
\<close>

partial_function (option) remove_fixup :: "state \<Rightarrow> ptr \<Rightarrow> ptr \<Rightarrow> ptr \<Rightarrow> (state \<times> ptr) res" where
  "remove_fixup s node parent' tree =
     bnd (get s tree root) (\<lambda>rt.
     if node = rt then ret (s, node)
     else
       bnd (get s parent' left) (\<lambda>pl.
       if node = pl then
         bnd (get s parent' right) (\<lambda>sibling.
         bnd (get s sibling isred) (\<lambda>sred.
         bnd (if sred then
                bnd (put s sibling (\<lambda>n. n\<lparr>isred := False\<rparr>)) (\<lambda>s1.
                bnd (put s1 parent' (\<lambda>n. n\<lparr>isred := True\<rparr>)) (\<lambda>s2.
                bnd (tree_rotate_left parent' tree s2) (\<lambda>s3.
                bnd (get s3 parent' right) (\<lambda>sibling'. ret (s3, sibling')))))
              else ret (s, sibling)) (\<lambda>(s1, sibling1).
         bnd (both_black s1 sibling1) (\<lambda>bb.
         if bb then
           bnd (put s1 sibling1 (\<lambda>n. n\<lparr>isred := True\<rparr>)) (\<lambda>s2.
           bnd (get s2 parent' parent) (\<lambda>pp.
           bnd (get s2 parent' isred) (\<lambda>nred.
           if \<not> nred then remove_fixup s2 parent' pp tree else ret (s2, parent'))))
         else
           bnd (get s1 sibling1 right) (\<lambda>sr.
           bnd (null_or_black s1 sr) (\<lambda>rb.
           bnd (if rb then
                  bnd (get s1 sibling1 left) (\<lambda>sl.
                  bnd (put s1 sl (\<lambda>n. n\<lparr>isred := False\<rparr>)) (\<lambda>s2.
                  bnd (put s2 sibling1 (\<lambda>n. n\<lparr>isred := True\<rparr>)) (\<lambda>s3.
                  bnd (tree_rotate_right sibling1 tree s3) (\<lambda>s4.
                  bnd (get s4 parent' right) (\<lambda>sibling'. ret (s4, sibling'))))))
                else ret (s1, sibling1)) (\<lambda>(s2, sibling2).
           bnd (get s2 parent' isred) (\<lambda>pred.
           bnd (put s2 sibling2 (\<lambda>n. n\<lparr>isred := pred\<rparr>)) (\<lambda>s3.
           bnd (put s3 parent' (\<lambda>n. n\<lparr>isred := False\<rparr>)) (\<lambda>s4.
           bnd (get s4 sibling2 right) (\<lambda>sr'.
           bnd (put s4 sr' (\<lambda>n. n\<lparr>isred := False\<rparr>)) (\<lambda>s5.
           bnd (tree_rotate_left parent' tree s5) (\<lambda>s6.
           bnd (get s6 tree root) (\<lambda>rt'. ret (s6, rt')))))))))))))))
       else
         bnd (get s parent' right) (\<lambda>sibling.
         bnd (get s sibling isred) (\<lambda>sred.
         bnd (if sred then
                bnd (put s sibling (\<lambda>n. n\<lparr>isred := False\<rparr>)) (\<lambda>s1.
                bnd (put s1 parent' (\<lambda>n. n\<lparr>isred := True\<rparr>)) (\<lambda>s2.
                bnd (tree_rotate_right parent' tree s2) (\<lambda>s3.
                bnd (get s3 parent' left) (\<lambda>sibling'. ret (s3, sibling')))))
              else ret (s, sibling)) (\<lambda>(s1, sibling1).
         bnd (both_black s1 sibling1) (\<lambda>bb.
         if bb then
           bnd (put s1 sibling1 (\<lambda>n. n\<lparr>isred := True\<rparr>)) (\<lambda>s2.
           bnd (get s2 parent' parent) (\<lambda>pp.
           bnd (get s2 parent' isred) (\<lambda>nred.
           if \<not> nred then remove_fixup s2 parent' pp tree else ret (s2, parent'))))
         else
           bnd (get s1 sibling1 left) (\<lambda>sl.
           bnd (null_or_black s1 sl) (\<lambda>lb.
           bnd (if lb then
                  bnd (get s1 sibling1 right) (\<lambda>sr.
                  bnd (put s1 sr (\<lambda>n. n\<lparr>isred := False\<rparr>)) (\<lambda>s2.
                  bnd (put s2 sibling1 (\<lambda>n. n\<lparr>isred := True\<rparr>)) (\<lambda>s3.
                  bnd (tree_rotate_left sibling1 tree s3) (\<lambda>s4.
                  bnd (get s4 parent' left) (\<lambda>sibling'. ret (s4, sibling'))))))
                else ret (s1, sibling1)) (\<lambda>(s2, sibling2).
           bnd (get s2 parent' isred) (\<lambda>pred.
           bnd (put s2 sibling2 (\<lambda>n. n\<lparr>isred := pred\<rparr>)) (\<lambda>s3.
           bnd (put s3 parent' (\<lambda>n. n\<lparr>isred := False\<rparr>)) (\<lambda>s4.
           bnd (get s4 sibling2 left) (\<lambda>sl'.
           bnd (put s4 sl' (\<lambda>n. n\<lparr>isred := False\<rparr>)) (\<lambda>s5.
           bnd (tree_rotate_right parent' tree s5) (\<lambda>s6.
           bnd (get s6 tree root) (\<lambda>rt'. ret (s6, rt')))))))))))))))))"

declare remove_fixup.simps [code]

text \<open>
  The unlinking part of \<^verbatim>\<open>tree_remove\<close>, up to the tests on \<^verbatim>\<open>color\<close>: it returns the
  state and the values of \<^verbatim>\<open>node\<close>, \<^verbatim>\<open>parent\<close> and \<^verbatim>\<open>color\<close> there.
\<close>

definition remove_unlink :: "ptr \<Rightarrow> ptr \<Rightarrow> state \<Rightarrow> (state \<times> ptr \<times> ptr \<times> bool) res" where
  "remove_unlink node tree s =
     bnd (get s node parent) (\<lambda>parent'.
     bnd (get s node left) (\<lambda>left'.
     bnd (get s node right) (\<lambda>right'.
     bnd (get s tree first) (\<lambda>tf.
     bnd (if node = tf then
            bnd (child_next s node) (\<lambda>nx. put s tree (\<lambda>n. n\<lparr>first := nx\<rparr>))
          else ret s) (\<lambda>s1.
     bnd (get s1 tree last') (\<lambda>tl.
     bnd (if node = tl then
            bnd (child_next s1 node) (\<lambda>nx. put s1 tree (\<lambda>n. n\<lparr>last' := nx\<rparr>))
          else ret s1) (\<lambda>s2.
     bnd (if left' = None then ret right'
          else if right' = None then ret left'
          else child_first s2 right') (\<lambda>next.
     bnd (if parent' \<noteq> None then
            bnd (get s2 parent' left) (\<lambda>pl. set_child next parent' (pl = node) s2)
          else put s2 tree (\<lambda>n. n\<lparr>root := next\<rparr>)) (\<lambda>s3.
     if left' \<noteq> None \<and> right' \<noteq> None then
       bnd (get s3 next isred) (\<lambda>color.
       bnd (get s3 node isred) (\<lambda>nred.
       bnd (put s3 next (\<lambda>n. n\<lparr>isred := nred\<rparr>)) (\<lambda>s4.
       bnd (put s4 next (\<lambda>n. n\<lparr>left := left'\<rparr>)) (\<lambda>s5.
       bnd (set_parent next left' s5) (\<lambda>s6.
       if next \<noteq> right' then
         bnd (get s6 next parent) (\<lambda>parent1.
         bnd (get s6 node parent) (\<lambda>np.
         bnd (set_parent np next s6) (\<lambda>s7.
         bnd (get s7 next right) (\<lambda>node1.
         bnd (put s7 parent1 (\<lambda>n. n\<lparr>left := node1\<rparr>)) (\<lambda>s8.
         bnd (put s8 next (\<lambda>n. n\<lparr>right := right'\<rparr>)) (\<lambda>s9.
         bnd (set_parent next right' s9) (\<lambda>s10.
         ret (s10, node1, parent1, color))))))))
       else
         bnd (set_parent parent' next s6) (\<lambda>s7.
         bnd (get s7 next right) (\<lambda>node1.
         ret (s7, node1, next, color))))))))
     else
       bnd (get s3 node isred) (\<lambda>color.
       ret (s3, next, parent', color)))))))))))"

definition tree_remove :: "ptr \<Rightarrow> ptr \<Rightarrow> state \<Rightarrow> state res" where
  "tree_remove node tree s =
     bnd (get s tree is_container) (\<lambda>c.
     if \<not> c then ret s
     else
       bnd (remove_unlink node tree s) (\<lambda>(s1, node1, parent1, color).
       bnd (if node1 \<noteq> None then set_parent parent1 node1 s1 else ret s1) (\<lambda>s2.
       if color then ret s2
       else
         bnd (is_red s2 node1) (\<lambda>nred.
         if nred then put s2 node1 (\<lambda>n. n\<lparr>isred := False\<rparr>)
         else
           bnd (remove_fixup s2 node1 parent1 tree) (\<lambda>(s3, node2).
           if node2 \<noteq> None then put s3 node2 (\<lambda>n. n\<lparr>isred := False\<rparr>)
           else ret s3)))))"


section \<open>Nodes: construction and destruction\<close>

definition zero_item :: cJSON where
  "zero_item =
     \<lparr>left = None, right = None, parent = None, root = None, first = None, last' = None,
      count = 0, index = 0, isred = False, kind = Unset, is_reference = False,
      string = None, valuestring = None, vstrlen = 0, valueint = 0, valuedouble = 0\<rparr>"

definition cJSON_New_Item :: "state \<Rightarrow> (ptr \<times> state) res" where
  "cJSON_New_Item s =
     (case cJSON_malloc s of
        (None, s1) \<Rightarrow> ret (None, s1)
      | (Some a, s1) \<Rightarrow> ret (Some a, s1\<lparr>nodes := (nodes s1)(a \<mapsto> zero_item)\<rparr>))"

partial_function (option) cJSON_Delete :: "state \<Rightarrow> ptr \<Rightarrow> state res" where
  "cJSON_Delete s c =
     bnd (get s c root) (\<lambda>rt.
     bnd (if rt \<noteq> None then cJSON_Delete s rt else ret s) (\<lambda>s1.
     bnd (get s1 c left) (\<lambda>l.
     bnd (if l \<noteq> None then cJSON_Delete s1 l else ret s1) (\<lambda>s2.
     bnd (get s2 c right) (\<lambda>r.
     bnd (if r \<noteq> None then cJSON_Delete s2 r else ret s2) (\<lambda>s3.
     bnd (get s3 c string) (\<lambda>str.
     bnd (if str \<noteq> None then free_buf s3 str else ret s3) (\<lambda>s4.
     bnd (get s4 c is_reference) (\<lambda>isref.
     bnd (get s4 c valuestring) (\<lambda>vs.
     bnd (if \<not> isref \<and> vs \<noteq> None then free_buf s4 vs else ret s4) (\<lambda>s5.
     free_node s5 c)))))))))))"

declare cJSON_Delete.simps [code]

definition create_kind :: "kind \<Rightarrow> state \<Rightarrow> (ptr \<times> state) res" where
  "create_kind k s =
     bnd (cJSON_New_Item s) (\<lambda>(item, s1).
       if item \<noteq> None then
         bnd (put s1 item (\<lambda>n. n\<lparr>kind := k, is_reference := False\<rparr>)) (\<lambda>s2. ret (item, s2))
       else ret (item, s1))"

definition cJSON_CreateNull :: "state \<Rightarrow> (ptr \<times> state) res" where
  "cJSON_CreateNull = create_kind cJSON_NULL"

definition cJSON_CreateTrue :: "state \<Rightarrow> (ptr \<times> state) res" where
  "cJSON_CreateTrue = create_kind cJSON_True"

definition cJSON_CreateFalse :: "state \<Rightarrow> (ptr \<times> state) res" where
  "cJSON_CreateFalse = create_kind cJSON_False"

definition cJSON_CreateArray :: "state \<Rightarrow> (ptr \<times> state) res" where
  "cJSON_CreateArray = create_kind cJSON_Array"

definition cJSON_CreateObject :: "state \<Rightarrow> (ptr \<times> state) res" where
  "cJSON_CreateObject = create_kind cJSON_Object"

definition cJSON_CreateString :: "string option \<Rightarrow> state \<Rightarrow> (ptr \<times> state) res" where
  "cJSON_CreateString str s =
     bnd (cJSON_New_Item s) (\<lambda>(item, s1).
       if item \<noteq> None then
         bnd (put s1 item (\<lambda>n. n\<lparr>kind := cJSON_String, is_reference := False\<rparr>)) (\<lambda>s2.
         bnd (cJSON_strdup s2 str) (\<lambda>(b, s3).
         bnd (put s3 item (\<lambda>n. n\<lparr>valuestring := b\<rparr>)) (\<lambda>s4. ret (item, s4))))
       else ret (item, s1))"

text \<open>
  \<^verbatim>\<open>create_reference\<close>: \<^verbatim>\<open>memcpy\<close> of the whole structure, then the key is cleared and the
  reference flag set.
\<close>

definition create_reference :: "ptr \<Rightarrow> state \<Rightarrow> (ptr \<times> state) res" where
  "create_reference item s =
     bnd (cJSON_New_Item s) (\<lambda>(ref, s1).
       if ref = None then ret (None, s1)
       else
         bnd (get s1 item (\<lambda>n. n)) (\<lambda>src.
         bnd (put s1 ref (\<lambda>n. src)) (\<lambda>s2.
         bnd (put s2 ref (\<lambda>n. n\<lparr>string := None\<rparr>)) (\<lambda>s3.
         bnd (put s3 ref (\<lambda>n. n\<lparr>is_reference := True\<rparr>)) (\<lambda>s4.
         ret (ref, s4))))))"


section \<open>Container operations\<close>

definition cJSON_GetArraySize :: "state \<Rightarrow> ptr \<Rightarrow> int res" where
  "cJSON_GetArraySize s array = get s array count"

definition cJSON_GetArrayItem :: "state \<Rightarrow> ptr \<Rightarrow> int \<Rightarrow> ptr res" where
  "cJSON_GetArrayItem s array item =
     bnd (tree_lookup s None item array) (\<lambda>(object, parent', isleft). ret object)"

definition cJSON_GetObjectItem :: "state \<Rightarrow> ptr \<Rightarrow> string option \<Rightarrow> ptr res" where
  "cJSON_GetObjectItem s object str =
     bnd (tree_lookup s str 0 object) (\<lambda>(item, parent', isleft). ret item)"

definition cJSON_GetFirstChild :: "state \<Rightarrow> ptr \<Rightarrow> ptr res" where
  "cJSON_GetFirstChild s object = obj_first s object"

definition cJSON_GetNextChild :: "state \<Rightarrow> ptr \<Rightarrow> ptr res" where
  "cJSON_GetNextChild s object = child_next s object"

definition cJSON_AddItemToArray :: "ptr \<Rightarrow> ptr \<Rightarrow> state \<Rightarrow> state res" where
  "cJSON_AddItemToArray array item s =
     bnd (get s array is_array) (\<lambda>a.
     if \<not> a then ret s
     else if item = None then ret s
     else
       bnd (get s array count) (\<lambda>c.
       bnd (put s array (\<lambda>n. n\<lparr>count := int32 (c + 1)\<rparr>)) (\<lambda>s1.
       bnd (put s1 item (\<lambda>n. n\<lparr>index := c\<rparr>)) (\<lambda>s2.
       bnd (tree_insert_item item array s2) (\<lambda>(found, s3). ret s3)))))"

definition cJSON_AddItemToObject :: "ptr \<Rightarrow> string option \<Rightarrow> ptr \<Rightarrow> state \<Rightarrow> state res" where
  "cJSON_AddItemToObject object str item s =
     bnd (get s object is_object) (\<lambda>ob.
     if \<not> ob then ret s
     else if item = None then ret s
     else
       bnd (get s item string) (\<lambda>old.
       bnd (if old \<noteq> None then free_buf s old else ret s) (\<lambda>s1.
       bnd (cJSON_strdup s1 str) (\<lambda>(b, s2).
       bnd (put s2 item (\<lambda>n. n\<lparr>string := b\<rparr>)) (\<lambda>s3.
       bnd (get s3 object count) (\<lambda>c.
       bnd (put s3 object (\<lambda>n. n\<lparr>count := int32 (c + 1)\<rparr>)) (\<lambda>s4.
       bnd (tree_insert_item item object s4) (\<lambda>(found, s5). ret s5))))))))"

definition cJSON_AddItemReferenceToArray :: "ptr \<Rightarrow> ptr \<Rightarrow> state \<Rightarrow> state res" where
  "cJSON_AddItemReferenceToArray array item s =
     bnd (create_reference item s) (\<lambda>(ref, s1). cJSON_AddItemToArray array ref s1)"

definition cJSON_AddItemReferenceToObject :: "ptr \<Rightarrow> string option \<Rightarrow> ptr \<Rightarrow> state \<Rightarrow> state res" where
  "cJSON_AddItemReferenceToObject object str item s =
     bnd (create_reference item s) (\<lambda>(ref, s1). cJSON_AddItemToObject object str ref s1)"

definition cJSON_DetachItemFromArray :: "ptr \<Rightarrow> int \<Rightarrow> state \<Rightarrow> (ptr \<times> state) res" where
  "cJSON_DetachItemFromArray array which s =
     bnd (tree_lookup s None which array) (\<lambda>(item, parent', isleft).
       if item = None then ret (None, s)
       else bnd (tree_remove item array s) (\<lambda>s1. ret (item, s1)))"

definition cJSON_DeleteItemFromArray :: "ptr \<Rightarrow> int \<Rightarrow> state \<Rightarrow> state res" where
  "cJSON_DeleteItemFromArray array which s =
     bnd (cJSON_DetachItemFromArray array which s) (\<lambda>(item, s1). cJSON_Delete s1 item)"

definition cJSON_DetachItemFromObject :: "ptr \<Rightarrow> string option \<Rightarrow> state \<Rightarrow> (ptr \<times> state) res" where
  "cJSON_DetachItemFromObject object str s =
     bnd (tree_lookup s str 0 object) (\<lambda>(item, parent', isleft).
       if item = None then ret (None, s)
       else
         bnd (tree_remove item object s) (\<lambda>s1.
         bnd (get s1 object count) (\<lambda>c.
         bnd (put s1 object (\<lambda>n. n\<lparr>count := int32 (c - 1)\<rparr>)) (\<lambda>s2.
         ret (item, s2)))))"

definition cJSON_DeleteItemFromObject :: "ptr \<Rightarrow> string option \<Rightarrow> state \<Rightarrow> state res" where
  "cJSON_DeleteItemFromObject object str s =
     bnd (cJSON_DetachItemFromObject object str s) (\<lambda>(item, s1). cJSON_Delete s1 item)"

text \<open>
  \<^verbatim>\<open>tree_replace\<close>.  \<^verbatim>\<open>set_child(parent, newitem, isleft)\<close> stores \<^verbatim>\<open>parent\<close> in a child
  field of \<^verbatim>\<open>newitem\<close>, and \<^verbatim>\<open>set_parent(newitem, item->left)\<close> makes \<^verbatim>\<open>newitem\<close> the
  parent of the old left child, as the source's argument orders have it.
\<close>

definition tree_replace :: "ptr \<Rightarrow> int \<Rightarrow> string option \<Rightarrow> ptr \<Rightarrow> state \<Rightarrow> state res" where
  "tree_replace obj idx str newitem s =
     bnd (tree_lookup s str idx obj) (\<lambda>(item, parent', isleft).
       if item = None then ret s
       else
         bnd (if parent' \<noteq> None then set_child parent' newitem isleft s else ret s) (\<lambda>s1.
         bnd (get s1 item left) (\<lambda>il.
         bnd (if il \<noteq> None then set_parent newitem il s1 else ret s1) (\<lambda>s2.
         bnd (get s2 item right) (\<lambda>ir.
         bnd (if ir \<noteq> None then set_parent newitem ir s2 else ret s2) (\<lambda>s3.
         bnd (get s3 obj first) (\<lambda>f.
         bnd (if f = item then put s3 obj (\<lambda>n. n\<lparr>first := newitem\<rparr>) else ret s3) (\<lambda>s4.
         bnd (get s4 obj last') (\<lambda>l.
         bnd (if l = item then put s4 obj (\<lambda>n. n\<lparr>last' := newitem\<rparr>) else ret s4) (\<lambda>s5.
         cJSON_Delete s5 item))))))))))"

definition cJSON_ReplaceItemInArray :: "ptr \<Rightarrow> int \<Rightarrow> ptr \<Rightarrow> state \<Rightarrow> state res" where
  "cJSON_ReplaceItemInArray array which newitem s = tree_replace array which None newitem s"

definition cJSON_ReplaceItemInObject :: "ptr \<Rightarrow> string option \<Rightarrow> ptr \<Rightarrow> state \<Rightarrow> state res" where
  "cJSON_ReplaceItemInObject object str newitem s = tree_replace object 0 str newitem s"


text \<open>
  \<^verbatim>\<open>cJSON_CreateStringArray\<close>.  The array \<^verbatim>\<open>strings\<close> with its length \<^verbatim>\<open>count\<close> is
  the list \<open>strings\<close>; \<open>create_strings\<close> is the loop, with the rest of the array and
  the counter \<^verbatim>\<open>i\<close>.  The result of \<^verbatim>\<open>cJSON_CreateString\<close> is written through
  unchecked, and the field \<^verbatim>\<open>count\<close> of the array is left as \<^verbatim>\<open>cJSON_CreateArray\<close> has
  made it.  (The counter stays below \<^verbatim>\<open>count\<close>, so that \<^verbatim>\<open>i++\<close> does not overflow.)
\<close>

fun create_strings :: "string list \<Rightarrow> int \<Rightarrow> ptr \<Rightarrow> state \<Rightarrow> state res" where
  "create_strings [] i a s = ret s"
| "create_strings (str # strs) i a s =
     bnd (cJSON_CreateString (Some str) s) (\<lambda>(n, s1).
     bnd (put s1 n (\<lambda>m. m\<lparr>index := i\<rparr>)) (\<lambda>s2.
     bnd (tree_insert_item n a s2) (\<lambda>(found, s3).
     create_strings strs (i + 1) a s3)))"

definition cJSON_CreateStringArray :: "string list \<Rightarrow> state \<Rightarrow> (ptr \<times> state) res" where
  "cJSON_CreateStringArray strings s =
     bnd (cJSON_CreateArray s) (\<lambda>(a, s1).
       if a = None then ret (None, s1)
       else bnd (create_strings strings 0 a s1) (\<lambda>s2. ret (a, s2)))"


section \<open>Traversal\<close>

text \<open>
  The enumeration the printers run:
  \<^verbatim>\<open>child = obj_first(item); while (child) { ...; child = child_next(child); }\<close>,
  collecting the members visited.
\<close>

partial_function (option) drain :: "state \<Rightarrow> ptr \<Rightarrow> nat list res" where
  "drain s child =
     (case child of None \<Rightarrow> ret []
      | Some a \<Rightarrow>
          bnd (child_next s child) (\<lambda>nx.
          bnd (drain s nx) (\<lambda>rest. ret (a # rest))))"

declare drain.simps [code]

definition traversal :: "state \<Rightarrow> ptr \<Rightarrow> nat list res" where
  "traversal s item = bnd (obj_first s item) (\<lambda>child. drain s child)"


section \<open>Client programs\<close>

text \<open>
  The concrete runs below are programs against the public interface, started in a state with
  nothing allocated: \<open>array_of n\<close> creates an Array and appends \<open>n\<close> fresh Null nodes
  with \<^verbatim>\<open>cJSON_AddItemToArray\<close>; \<open>object_of ks\<close> creates an Object and adds one fresh Null
  node per key of \<open>ks\<close>, in that order, with \<^verbatim>\<open>cJSON_AddItemToObject\<close>.  The allocator
  numbers the allocations 1, 2, 3, ...: the container is 1; in an array the elements are
  2, 3, ...; in an object the \<open>i\<close>-th member is \<open>2i\<close> and its key buffer \<open>2i + 1\<close>.
\<close>

definition s0 :: state where
  "s0 = \<lparr>nodes = Map.empty, bufs = Map.empty, brk = 1, avail = 1000, freed = []\<rparr>"

fun append_nulls :: "nat \<Rightarrow> ptr \<Rightarrow> state \<Rightarrow> state res" where
  "append_nulls 0 a s = ret s"
| "append_nulls (Suc n) a s =
     bnd (cJSON_CreateNull s) (\<lambda>(item, s1).
     bnd (cJSON_AddItemToArray a item s1) (\<lambda>s2. append_nulls n a s2))"

fun add_nulls :: "string list \<Rightarrow> ptr \<Rightarrow> state \<Rightarrow> state res" where
  "add_nulls [] ob s = ret s"
| "add_nulls (k # ks) ob s =
     bnd (cJSON_CreateNull s) (\<lambda>(item, s1).
     bnd (cJSON_AddItemToObject ob (Some k) item s1) (\<lambda>s2. add_nulls ks ob s2))"

definition array_of :: "nat \<Rightarrow> (ptr \<times> state) res" where
  "array_of n =
     bnd (cJSON_CreateArray s0) (\<lambda>(a, s1).
     bnd (append_nulls n a s1) (\<lambda>s2. ret (a, s2)))"

definition object_of :: "string list \<Rightarrow> (ptr \<times> state) res" where
  "object_of ks =
     bnd (cJSON_CreateObject s0) (\<lambda>(ob, s1).
     bnd (add_nulls ks ob s1) (\<lambda>s2. ret (ob, s2)))"

text \<open>The keys of a list of members, as the printers would read them.\<close>

fun keys_of :: "state \<Rightarrow> nat list \<Rightarrow> string option list res" where
  "keys_of s [] = ret []"
| "keys_of s (a # as) =
     bnd (get s (Some a) string) (\<lambda>p.
     bnd (rdstr s p) (\<lambda>k.
     bnd (keys_of s as) (\<lambda>ks. ret (k # ks))))"

fun indices_of :: "state \<Rightarrow> nat list \<Rightarrow> int list res" where
  "indices_of s [] = ret []"
| "indices_of s (a # as) =
     bnd (get s (Some a) index) (\<lambda>i.
     bnd (indices_of s as) (\<lambda>is. ret (i # is)))"

text \<open>
  The key of a member, read as the printers read it: \<^verbatim>\<open>item->string\<close>.
\<close>

definition member_key :: "state \<Rightarrow> nat \<Rightarrow> string option res" where
  "member_key s a = bnd (get s (Some a) string) (\<lambda>p. rdstr s p)"

text \<open>
  Two more client programs, over nodes that exist already: \<open>append_items xs a\<close> appends
  the nodes \<open>xs\<close> to the array \<open>a\<close> with \<^verbatim>\<open>cJSON_AddItemToArray\<close>, in that order;
  \<open>add_members kvs ob\<close> adds the nodes of \<open>kvs\<close> to the object \<open>ob\<close> under their keys
  with \<^verbatim>\<open>cJSON_AddItemToObject\<close>, in that order.
\<close>

fun append_items :: "nat list \<Rightarrow> ptr \<Rightarrow> state \<Rightarrow> state res" where
  "append_items [] a s = ret s"
| "append_items (x # xs) a s =
     bnd (cJSON_AddItemToArray a (Some x) s) (\<lambda>s1. append_items xs a s1)"

fun add_members :: "(string \<times> nat) list \<Rightarrow> ptr \<Rightarrow> state \<Rightarrow> state res" where
  "add_members [] ob s = ret s"
| "add_members ((k, x) # kvs) ob s =
     bnd (cJSON_AddItemToObject ob (Some k) (Some x) s) (\<lambda>s1. add_members kvs ob s1)"

text \<open>
  A state to run them in: an empty Object at address 1, an empty Array at 2 and four value
  nodes at 3 to 6, as six calls of the constructors leave them.
\<close>

definition ex_state :: state where
  "ex_state =
     \<lparr>nodes = [1 \<mapsto> zero_item\<lparr>kind := cJSON_Object\<rparr>, 2 \<mapsto> zero_item\<lparr>kind := cJSON_Array\<rparr>,
               3 \<mapsto> zero_item\<lparr>kind := cJSON_NULL\<rparr>, 4 \<mapsto> zero_item\<lparr>kind := cJSON_True\<rparr>,
               5 \<mapsto> zero_item\<lparr>kind := cJSON_NULL\<rparr>, 6 \<mapsto> zero_item\<lparr>kind := cJSON_False\<rparr>],
      bufs = Map.empty, brk = 7, avail = 994, freed = []\<rparr>"



section \<open>What the store represents\<close>

subsection \<open>Trees and their positions\<close>

text \<open>
  The shape of a container's tree, with the address of a node at each inner position.
  \<open>rep h par p t\<close> says that in the store \<open>h\<close> the pointer \<open>p\<close> is the root of a
  subtree of shape \<open>t\<close> whose root has the parent pointer \<open>par\<close>: the fields
  \<^verbatim>\<open>left\<close>, \<^verbatim>\<open>right\<close> and \<^verbatim>\<open>parent\<close> of every node are as the shape has them.
\<close>

datatype btree = Leaf | Node btree nat btree

fun inorder :: "btree \<Rightarrow> nat list" where
  "inorder Leaf = []"
| "inorder (Node l a r) = inorder l @ a # inorder r"

fun root_ptr :: "btree \<Rightarrow> ptr" where
  "root_ptr Leaf = None"
| "root_ptr (Node l a r) = Some a"

fun rep :: "(nat \<rightharpoonup> cJSON) \<Rightarrow> ptr \<Rightarrow> ptr \<Rightarrow> btree \<Rightarrow> bool" where
  "rep h par p Leaf \<longleftrightarrow> p = None"
| "rep h par p (Node l a r) \<longleftrightarrow>
     p = Some a \<and>
     (case h a of None \<Rightarrow> False
      | Some n \<Rightarrow> parent n = par \<and> rep h (Some a) (left n) l \<and> rep h (Some a) (right n) r)"

text \<open>
  A position in a tree is the path from it up to the root, with the subtrees that hang off
  that path: \<open>InL k a r\<close> is the left child slot of the node \<open>a\<close>, whose right subtree is
  \<open>r\<close> and whose own position is \<open>k\<close>.  \<open>plug k t\<close> is the whole tree with \<open>t\<close> at the
  position \<open>k\<close>; \<open>cbefore k\<close> and \<open>cafter k\<close> are the members before and after
  the position in the order of traversal.  \<open>repc h c k p\<close> says that the store holds the
  tree of the container \<open>c\<close> around the position \<open>k\<close>, and that the slot at \<open>k\<close> holds
  the pointer \<open>p\<close> (at the top, the slot is the field \<^verbatim>\<open>root\<close> of the container).
\<close>

datatype ctx = Top | InL ctx nat btree | InR btree nat ctx

fun plug :: "ctx \<Rightarrow> btree \<Rightarrow> btree" where
  "plug Top t = t"
| "plug (InL k a r) t = plug k (Node t a r)"
| "plug (InR l a k) t = plug k (Node l a t)"

fun hole_parent :: "ctx \<Rightarrow> ptr" where
  "hole_parent Top = None"
| "hole_parent (InL k a r) = Some a"
| "hole_parent (InR l a k) = Some a"

fun hole_isleft :: "ctx \<Rightarrow> bool" where
  "hole_isleft Top = False"
| "hole_isleft (InL k a r) = True"
| "hole_isleft (InR l a k) = False"

fun cbefore :: "ctx \<Rightarrow> nat list" where
  "cbefore Top = []"
| "cbefore (InL k a r) = cbefore k"
| "cbefore (InR l a k) = cbefore k @ inorder l @ [a]"

fun cafter :: "ctx \<Rightarrow> nat list" where
  "cafter Top = []"
| "cafter (InL k a r) = a # inorder r @ cafter k"
| "cafter (InR l a k) = cafter k"

fun repc :: "(nat \<rightharpoonup> cJSON) \<Rightarrow> nat \<Rightarrow> ctx \<Rightarrow> ptr \<Rightarrow> bool" where
  "repc h c Top p \<longleftrightarrow> (case h c of None \<Rightarrow> False | Some n \<Rightarrow> root n = p)"
| "repc h c (InL k a r) p \<longleftrightarrow>
     (case h a of None \<Rightarrow> False
      | Some n \<Rightarrow> left n = p \<and> parent n = hole_parent k \<and> rep h (Some a) (right n) r
                 \<and> repc h c k (Some a))"
| "repc h c (InR l a k) p \<longleftrightarrow>
     (case h a of None \<Rightarrow> False
      | Some n \<Rightarrow> right n = p \<and> parent n = hole_parent k \<and> rep h (Some a) (left n) l
                 \<and> repc h c k (Some a))"

definition cset :: "ctx \<Rightarrow> nat set" where
  "cset k = set (cbefore k) \<union> set (cafter k)"

fun ctx_top :: "ctx \<Rightarrow> nat option" where
  "ctx_top Top = None"
| "ctx_top (InL k a r) = (case ctx_top k of None \<Rightarrow> Some a | Some x \<Rightarrow> Some x)"
| "ctx_top (InR l a k) = (case ctx_top k of None \<Rightarrow> Some a | Some x \<Rightarrow> Some x)"

definition links :: "cJSON option \<Rightarrow> (ptr \<times> ptr \<times> ptr) option" where
  "links = map_option (\<lambda>n. (left n, right n, parent n))"

definition hd_ptr :: "nat list \<Rightarrow> ptr" where
  "hd_ptr xs = (case xs of [] \<Rightarrow> None | a # _ \<Rightarrow> Some a)"

subsection \<open>The order of the members\<close>

text \<open>
  Both comparisons of \<^verbatim>\<open>tree_lookup\<close> are comparisons of ranks, lists of integers in
  their lexicographic order, and the loop goes left where the probe's rank is smaller than
  the node's.  An array element has the rank \<open>[index]\<close>.  For a key, \<open>fold_case\<close> is
  what \<^verbatim>\<open>cJSON_strcasecmp\<close> reads of it, the bytes before the terminator with the upper
  case letters mapped to lower case, and its rank is the list of the negated bytes, closed by
  0: \<^verbatim>\<open>cJSON_strcasecmp(key, object->string) > 0\<close>, the test on which the loop goes left,
  holds exactly when the rank of \<^verbatim>\<open>key\<close> is the smaller one.  \<open>keyed\<close> says that a
  node can be compared: it is allocated and, in an object, has a key in an allocated buffer.
  \<open>prank\<close> is the rank of a probe.
\<close>

definition fold_case :: "string \<Rightarrow> int list" where
  "fold_case k = map (\<lambda>c. tolower (of_char c)) (c_str k)"

definition rank_str :: "string \<Rightarrow> int list" where
  "rank_str k = map uminus (fold_case k) @ [0]"

definition node_rank :: "state \<Rightarrow> bool \<Rightarrow> cJSON \<Rightarrow> int list" where
  "node_rank s ob n =
     (if ob then
        (case string n of None \<Rightarrow> []
         | Some b \<Rightarrow> (case bufs s b of None \<Rightarrow> [] | Some k \<Rightarrow> rank_str k))
      else [index n])"

definition rank_of :: "state \<Rightarrow> bool \<Rightarrow> nat \<Rightarrow> int list" where
  "rank_of s ob a = (case nodes s a of None \<Rightarrow> [] | Some n \<Rightarrow> node_rank s ob n)"

definition keyed :: "state \<Rightarrow> bool \<Rightarrow> nat \<Rightarrow> bool" where
  "keyed s ob a \<longleftrightarrow>
     (\<exists>n. nodes s a = Some n \<and> (ob \<longrightarrow> (\<exists>b k. string n = Some b \<and> bufs s b = Some k)))"

definition prank :: "bool \<Rightarrow> string option \<Rightarrow> int \<Rightarrow> int list" where
  "prank ob key idx = (if ob then (case key of None \<Rightarrow> [] | Some k \<Rightarrow> rank_str k) else [idx])"

text \<open>
  The search of \<^verbatim>\<open>tree_lookup\<close> on a shape: it ends at the node with the rank sought, or
  at the empty position where that rank belongs.
\<close>

fun descend :: "(nat \<Rightarrow> int list) \<Rightarrow> int list \<Rightarrow> ctx \<Rightarrow> btree \<Rightarrow> ctx \<times> btree" where
  "descend \<rho> \<pi> k Leaf = (k, Leaf)"
| "descend \<rho> \<pi> k (Node l a r) =
     (if \<pi> = \<rho> a then (k, Node l a r)
      else if \<pi> < \<rho> a then descend \<rho> \<pi> (InL k a r) l
      else descend \<rho> \<pi> (InR l a k) r)"

subsection \<open>States that differ in structure only\<close>

text \<open>
  The rotations change link fields and \<^verbatim>\<open>root\<close> (\<open>relinked\<close>), the fix-up after an
  insertion changes colours as well (\<open>rebalanced\<close>), and an insertion as a whole also
  \<^verbatim>\<open>first\<close> and \<^verbatim>\<open>last\<close> (\<open>restructured\<close>); nothing else of any node, and no buffer.
\<close>

definition lrel :: "cJSON \<Rightarrow> cJSON \<Rightarrow> bool" where
  "lrel n n' \<longleftrightarrow>
     n' = n\<lparr>left := left n', right := right n', parent := parent n', root := root n'\<rparr>"

definition hrel :: "(nat \<rightharpoonup> cJSON) \<Rightarrow> (nat \<rightharpoonup> cJSON) \<Rightarrow> bool" where
  "hrel h h' \<longleftrightarrow> (\<forall>x. rel_option lrel (h x) (h' x))"

definition relinked :: "state \<Rightarrow> state \<Rightarrow> bool" where
  "relinked s s' \<longleftrightarrow> (\<exists>h'. s' = s\<lparr>nodes := h'\<rparr> \<and> hrel (nodes s) h')"

definition crel :: "cJSON \<Rightarrow> cJSON \<Rightarrow> bool" where
  "crel n n' \<longleftrightarrow>
     n' = n\<lparr>left := left n', right := right n', parent := parent n', root := root n',
            isred := isred n'\<rparr>"

definition rebalanced :: "state \<Rightarrow> state \<Rightarrow> bool" where
  "rebalanced s s' \<longleftrightarrow>
     (\<exists>h'. s' = s\<lparr>nodes := h'\<rparr> \<and> (\<forall>x. rel_option crel (nodes s x) (h' x)))"

definition isred_at :: "(nat \<rightharpoonup> cJSON) \<Rightarrow> nat \<Rightarrow> bool" where
  "isred_at h a = (case h a of None \<Rightarrow> False | Some n \<Rightarrow> isred n)"

definition prel :: "cJSON \<Rightarrow> cJSON \<Rightarrow> bool" where
  "prel n n' \<longleftrightarrow>
     count n' = count n \<and> index n' = index n \<and>
     kind n' = kind n \<and> is_reference n' = is_reference n \<and> string n' = string n \<and>
     valuestring n' = valuestring n \<and> vstrlen n' = vstrlen n \<and> valueint n' = valueint n \<and>
     valuedouble n' = valuedouble n"

definition restructured :: "state \<Rightarrow> state \<Rightarrow> bool" where
  "restructured s s' \<longleftrightarrow>
     (\<exists>h'. s' = s\<lparr>nodes := h'\<rparr> \<and> (\<forall>x. rel_option prel (nodes s x) (h' x)))"

subsection \<open>The invariant of a container\<close>

text \<open>
  \<open>tree_inv s c t\<close>: the node \<open>c\<close> is a container whose tree has the shape \<open>t\<close>, its
  field \<^verbatim>\<open>first\<close> is the first member in the order of traversal, the members can be
  compared and are strictly sorted by rank, and the root is black.  (Nothing is said of
  \<^verbatim>\<open>last\<close>, of \<^verbatim>\<open>count\<close>, or of the colours below the root.)
  \<open>heap_ok\<close>: the allocator has handed out every address in use.  \<open>numbered\<close>: the
  elements \<open>xs\<close> have the ordinals 0, 1, 2, ... in this order.
\<close>

definition tree_inv :: "state \<Rightarrow> nat \<Rightarrow> btree \<Rightarrow> bool" where
  "tree_inv s c t \<longleftrightarrow>
     (\<exists>cn. nodes s c = Some cn \<and> is_container cn \<and> rep (nodes s) None (root cn) t \<and>
        first cn = hd_ptr (inorder t) \<and>
        (\<forall>a\<in>set (inorder t). keyed s (is_object cn) a) \<and>
        sorted_wrt (<) (map (rank_of s (is_object cn)) (inorder t))) \<and>
     c \<notin> set (inorder t) \<and>
     (\<forall>a. root_ptr t = Some a \<longrightarrow> \<not> isred_at (nodes s) a)"

definition heap_ok :: "state \<Rightarrow> bool" where
  "heap_ok s \<longleftrightarrow> (\<forall>a. nodes s a \<noteq> None \<longrightarrow> a < brk s) \<and> (\<forall>b. bufs s b \<noteq> None \<longrightarrow> b < brk s)"

definition numbered :: "state \<Rightarrow> nat list \<Rightarrow> bool" where
  "numbered s xs \<longleftrightarrow> map (rank_of s False) xs = map (\<lambda>i. [int i]) [0..<length xs]"

subsection \<open>What a node owns\<close>










section \<open>Removal and the red-black invariants\<close>

text \<open>
  C2 (red-black invariants after every sequence of inserts and removes).  Four appends give
  the tree with the black root 3 (ordinal 1), its black children 2 (ordinal 0) and 4
  (ordinal 2), and the red node 5 (ordinal 3) to the right of 4.  Detaching ordinal 3 removes
  the red leaf.  Detaching ordinal 2 then removes the black leaf 4, the right child of the
  root: the fix-up loop of \<^verbatim>\<open>tree_remove\<close> enters its second branch, where the sibling is
  taken from \<^verbatim>\<open>parent->right\<close>, the emptied slot itself, and \<^verbatim>\<open>sibling->isred\<close>
  dereferences \<^verbatim>\<open>NULL\<close>.  No tree results.
\<close>

theorem remove_black_right_leaf_faults:
  "bnd (array_of 4) (\<lambda>(a, s).
   bnd (cJSON_DetachItemFromArray a 3 s) (\<lambda>(n3, s1).
   bnd (cJSON_DetachItemFromArray a 2 s1) (\<lambda>(n2, s2). ret n2))) = crash NullDeref"
  by code_simp


section \<open>The cached extremes\<close>

text \<open>
  C3 (\<^verbatim>\<open>first\<close>/\<^verbatim>\<open>last\<close> are the leftmost and rightmost node after every insert and
  remove).  In an array of two elements the root is 2 and the last element 3.  Detaching
  ordinal 1 removes the current \<^verbatim>\<open>last\<close>; \<^verbatim>\<open>tree_remove\<close> replaces it by
  \<^verbatim>\<open>child_next(node)\<close>, the successor, which is \<^verbatim>\<open>NULL\<close>, while the rightmost node of the
  remaining tree is 2.
\<close>

theorem remove_last_clears_last:
  "bnd (array_of 2) (\<lambda>(a, s).
   bnd (cJSON_DetachItemFromArray a 1 s) (\<lambda>(n, s1).
   bnd (get s1 a last') (\<lambda>l.
   bnd (get s1 a root) (\<lambda>r.
   bnd (child_last s1 r) (\<lambda>m. ret (l, m)))))) = ret (None, Some 2)"
  by code_simp


section \<open>Replacement\<close>

text \<open>
  C4 (replace puts the new node at the position of the old one).  In an array with the single
  element 2, replacing ordinal 0 by the fresh node 3 leaves \<^verbatim>\<open>root\<close> pointing at 2, which
  \<^verbatim>\<open>tree_replace\<close> then deletes: the next lookup of ordinal 0 reads released memory, and it
  does not return 3.
\<close>

theorem replace_leaves_root_dangling:
  "bnd (array_of 1) (\<lambda>(a, s).
   bnd (cJSON_CreateTrue s) (\<lambda>(n, s1).
   bnd (cJSON_ReplaceItemInArray a 0 n s1) (\<lambda>s2.
   bnd (get s2 a root) (\<lambda>r. ret (n, r, freed s2, cJSON_GetArrayItem s2 a 0)))))
   = ret (Some 3, Some 2, [2], crash Dangling)"
  by code_simp


section \<open>Size and traversal\<close>

text \<open>
  C5 (\<^verbatim>\<open>count\<close> equals the number of members a traversal visits, after every mutation).
  Adding the key x twice leaves one member in the tree, since the second insertion collides,
  and \<^verbatim>\<open>cJSON_AddItemToObject\<close> has counted both.
\<close>

theorem colliding_add_counts_twice:
  "bnd (object_of [''x'', ''x'']) (\<lambda>(ob, s).
   bnd (cJSON_GetArraySize s ob) (\<lambda>c.
   bnd (traversal s ob) (\<lambda>t. ret (c, t)))) = ret (2, [2])"
  by code_simp


section \<open>Basic facts about the store\<close>

lemma bnd_ret [simp]: "bnd (ret x) f = f x"
  by (simp add: ret_def)

lemma bnd_crash [simp]: "bnd (crash e) f = crash e"
  by (simp add: crash_def)

lemma ret_neq_crash [simp]: "ret x \<noteq> crash e" "crash e \<noteq> ret x"
  by (simp_all add: ret_def crash_def)

lemma ret_inject [simp]: "ret x = ret y \<longleftrightarrow> x = y"
  by (simp add: ret_def)

lemma ret_neq_None [simp]: "ret x \<noteq> None" "None \<noteq> ret x"
  by (simp_all add: ret_def)

lemma get_Some: "nodes s a = Some n \<Longrightarrow> get s (Some a) f = ret (f n)"
  by (simp add: get_def)

lemma put_Some:
  "nodes s a = Some n \<Longrightarrow> put s (Some a) f = ret (s\<lparr>nodes := (nodes s)(a \<mapsto> f n)\<rparr>)"
  by (simp add: put_def)


section \<open>Reference construction\<close>

text \<open>
  C9, as stated: a reference node has the kind and value of its source, a cleared key,
  cleared links \<^verbatim>\<open>left\<close>, \<^verbatim>\<open>right\<close>, \<^verbatim>\<open>parent\<close>, and the reference flag.  The links are
  not cleared: in an array of two elements, node 3 is the right child of node 2, and a
  reference to node 3 is created with its \<^verbatim>\<open>parent\<close> field pointing at node 2.
\<close>

theorem create_reference_keeps_parent:
  "bnd (array_of 2) (\<lambda>(a, s).
   bnd (create_reference (Some 3) s) (\<lambda>(r, s1).
   bnd (get s1 r parent) (\<lambda>p.
   bnd (get s1 r is_reference) (\<lambda>f. ret (r, p, f))))) = ret (Some 4, Some 2, True)"
  by code_simp

text \<open>
  C9, amended: where the allocator grants the request, \<^verbatim>\<open>create_reference\<close> returns a new
  node that is a copy of the whole source structure, kind, value fields and link fields
  alike, except that its key is cleared and its reference flag set; the source node, every
  other node and every buffer are unchanged.  (The links of the copy are overwritten when it
  is inserted into a container.)
\<close>

theorem create_reference_copy:
  assumes "nodes s item = Some src" and "0 < avail s" and "nodes s (brk s) = None"
  shows "create_reference (Some item) s =
           ret (Some (brk s),
                s\<lparr>nodes := (nodes s)(brk s \<mapsto> src\<lparr>string := None, is_reference := True\<rparr>),
                  brk := Suc (brk s), avail := avail s - 1\<rparr>)"
proof -
  from assms have neq: "item \<noteq> brk s" by auto
  show ?thesis
    using assms neq
    by (simp add: create_reference_def cJSON_New_Item_def cJSON_malloc_def get_Some put_Some)
qed

theorem create_reference_copy_witness:
  "nodes (s0\<lparr>nodes := [0 \<mapsto> zero_item\<lparr>parent := Some 5, kind := cJSON_String\<rparr>]\<rparr>) 0
     = Some (zero_item\<lparr>parent := Some 5, kind := cJSON_String\<rparr>)
   \<and> 0 < avail (s0\<lparr>nodes := [0 \<mapsto> zero_item\<lparr>parent := Some 5, kind := cJSON_String\<rparr>]\<rparr>)
   \<and> nodes (s0\<lparr>nodes := [0 \<mapsto> zero_item\<lparr>parent := Some 5, kind := cJSON_String\<rparr>]\<rparr>) 1 = None
   \<and> create_reference (Some 0)
        (s0\<lparr>nodes := [0 \<mapsto> zero_item\<lparr>parent := Some 5, kind := cJSON_String\<rparr>]\<rparr>) =
       ret (Some 1,
            s0\<lparr>nodes := [0 \<mapsto> zero_item\<lparr>parent := Some 5, kind := cJSON_String\<rparr>,
                          1 \<mapsto> zero_item\<lparr>parent := Some 5, kind := cJSON_String,
                                          is_reference := True\<rparr>],
               brk := 2, avail := 999\<rparr>)"
  using create_reference_copy [of "s0\<lparr>nodes := [0 \<mapsto> zero_item\<lparr>parent := Some 5, kind := cJSON_String\<rparr>]\<rparr>"
      0 "zero_item\<lparr>parent := Some 5, kind := cJSON_String\<rparr>"]
  by (simp add: s0_def zero_item_def)


section \<open>Shapes and positions\<close>

lemma inorder_plug: "inorder (plug k t) = cbefore k @ inorder t @ cafter k"
  by (induction k arbitrary: t) auto

lemma rep_root_ptr: "rep h par p t \<Longrightarrow> p = root_ptr t"
  by (cases t) (auto simp: rep.simps)

lemma rep_Node_iff:
  "rep h par p (Node l a r) \<longleftrightarrow>
     p = Some a \<and> (\<exists>n. h a = Some n \<and> parent n = par \<and> rep h (Some a) (left n) l
                     \<and> rep h (Some a) (right n) r)"
  by (auto split: option.splits)

declare rep.simps(2) [simp del]

lemma repc_InL_iff:
  "repc h c (InL k a r) p \<longleftrightarrow>
     (\<exists>n. h a = Some n \<and> left n = p \<and> parent n = hole_parent k \<and> rep h (Some a) (right n) r
          \<and> repc h c k (Some a))"
  by (auto split: option.splits)

lemma repc_InR_iff:
  "repc h c (InR l a k) p \<longleftrightarrow>
     (\<exists>n. h a = Some n \<and> right n = p \<and> parent n = hole_parent k \<and> rep h (Some a) (left n) l
          \<and> repc h c k (Some a))"
  by (auto split: option.splits)

lemma repc_Top_iff: "repc h c Top p \<longleftrightarrow> (\<exists>n. h c = Some n \<and> root n = p)"
  by (auto split: option.splits)

declare repc.simps [simp del]

lemma rep_None [simp]: "rep h par None t \<longleftrightarrow> t = Leaf"
  by (cases t) (auto simp: rep_Node_iff)

txt \<open>The whole tree is the context around the hole and the subtree in it.\<close>

lemma rep_plug:
  "(\<exists>n. h c = Some n \<and> rep h None (root n) (plug k t)) \<longleftrightarrow>
   (\<exists>p. repc h c k p \<and> rep h (hole_parent k) p t)"
proof (induction k arbitrary: t)
  case Top
  then show ?case by (auto simp: repc_Top_iff)
next
  case (InL k a r)
  show ?case
    unfolding plug.simps InL.IH
    by (auto simp: rep_Node_iff repc_InL_iff)
next
  case (InR l a k)
  show ?case
    unfolding plug.simps InR.IH
    by (auto simp: rep_Node_iff repc_InR_iff)
qed

txt \<open>Frames: a predicate reads only the links of the nodes it describes.\<close>

lemma links_eq_Some:
  "links x = links y \<Longrightarrow> x = Some n \<Longrightarrow>
     \<exists>m. y = Some m \<and> left m = left n \<and> right m = right n \<and> parent m = parent n"
  by (cases y) (auto simp: links_def)

lemma rep_frame:
  "rep h par p t \<Longrightarrow> (\<And>a. a \<in> set (inorder t) \<Longrightarrow> links (h' a) = links (h a)) \<Longrightarrow> rep h' par p t"
proof (induction t arbitrary: par p)
  case Leaf
  then show ?case by simp
next
  case (Node l a r)
  from Node.prems(1) obtain n where n: "p = Some a" "h a = Some n" "parent n = par"
    "rep h (Some a) (left n) l" "rep h (Some a) (right n) r"
    by (auto simp: rep_Node_iff)
  have "links (h' a) = links (h a)" using Node.prems(2) by simp
  then obtain m where m: "h' a = Some m" "left m = left n" "right m = right n" "parent m = parent n"
    using links_eq_Some[of "h a" "h' a" n] n(2) by auto
  have "rep h' (Some a) (left n) l" using Node.IH(1)[OF n(4)] Node.prems(2) by simp
  moreover have "rep h' (Some a) (right n) r" using Node.IH(2)[OF n(5)] Node.prems(2) by simp
  ultimately show ?case using n m by (simp add: rep_Node_iff)
qed

lemma cset_simps [simp]:
  "cset Top = {}"
  "cset (InL k a r) = insert a (set (inorder r) \<union> cset k)"
  "cset (InR l a k) = insert a (set (inorder l) \<union> cset k)"
  by (auto simp: cset_def)

lemma repc_frame:
  "repc h c k p \<Longrightarrow> (\<And>a. a \<in> cset k \<Longrightarrow> links (h' a) = links (h a)) \<Longrightarrow>
   map_option root (h' c) = map_option root (h c) \<Longrightarrow> repc h' c k p"
proof (induction k arbitrary: p)
  case Top
  then show ?case by (cases "h' c") (auto simp: repc_Top_iff)
next
  case (InL k a r)
  from InL.prems(1) obtain n where n: "h a = Some n" "left n = p" "parent n = hole_parent k"
    "rep h (Some a) (right n) r" "repc h c k (Some a)"
    by (auto simp: repc_InL_iff)
  have "links (h' a) = links (h a)" using InL.prems(2) by simp
  then obtain m where m: "h' a = Some m" "left m = left n" "right m = right n" "parent m = parent n"
    using links_eq_Some[of "h a" "h' a" n] n(1) by auto
  have "rep h' (Some a) (right n) r" using rep_frame[OF n(4)] InL.prems(2) by simp
  moreover have "repc h' c k (Some a)" using InL.IH[OF n(5)] InL.prems(2,3) by simp
  ultimately show ?case using n m by (simp add: repc_InL_iff)
next
  case (InR l a k)
  from InR.prems(1) obtain n where n: "h a = Some n" "right n = p" "parent n = hole_parent k"
    "rep h (Some a) (left n) l" "repc h c k (Some a)"
    by (auto simp: repc_InR_iff)
  have "links (h' a) = links (h a)" using InR.prems(2) by simp
  then obtain m where m: "h' a = Some m" "left m = left n" "right m = right n" "parent m = parent n"
    using links_eq_Some[of "h a" "h' a" n] n(1) by auto
  have "rep h' (Some a) (left n) l" using rep_frame[OF n(4)] InR.prems(2) by simp
  moreover have "repc h' c k (Some a)" using InR.IH[OF n(5)] InR.prems(2,3) by simp
  ultimately show ?case using n m by (simp add: repc_InR_iff)
qed


section \<open>Ranks and the comparisons of the source\<close>

lemma of_char_int_ge0 [simp]: "(0::int) \<le> of_char c"
  by (metis of_nat_0_le_iff of_nat_of_char)

lemma tolower_0 [simp]: "tolower 0 = 0"
  by (simp add: tolower_def)

lemma tolower_eq0 [simp]: "0 \<le> x \<Longrightarrow> tolower x = 0 \<longleftrightarrow> x = 0"
  by (auto simp: tolower_def)

lemma tolower_pos: "0 < x \<Longrightarrow> 0 < tolower x"
  by (auto simp: tolower_def)

lemma rank_str_Nil [simp]: "rank_str [] = [0]"
  by (simp add: rank_str_def fold_case_def c_str_def)

lemma rank_str_Cons:
  "rank_str (c # cs) = (if of_char c = (0::int) then [0] else (- tolower (of_char c)) # rank_str cs)"
  by (auto simp: rank_str_def fold_case_def c_str_def)

lemma peek_Nil [simp]: "peek [] = 0"
  by (simp add: peek_def)

lemma peek_Cons [simp]: "peek (c # cs) = of_char c"
  by (simp add: peek_def)

lemma strcasecmp_loop_rank:
  "(0 < strcasecmp_loop a b \<longleftrightarrow> rank_str a < rank_str b) \<and>
   (strcasecmp_loop a b = 0 \<longleftrightarrow> rank_str a = rank_str b)"
proof (induction a arbitrary: b)
  case Nil
  show ?case
  proof (cases b)
    case Nil
    then show ?thesis by (simp add: strcasecmp_loop.simps)
  next
    case (Cons d ds)
    have "0 \<le> (of_char d :: int)" by simp
    then have "0 < tolower (of_char d) \<or> (of_char d :: int) = 0"
      using tolower_pos[of "of_char d"] by linarith
    then show ?thesis using Cons
      by (auto simp: strcasecmp_loop.simps[of "[]"] rank_str_Cons)
  qed
next
  case (Cons c cs)
  have c0: "0 < tolower (of_char c) \<or> (of_char c :: int) = 0"
    using tolower_pos[of "of_char c"] of_char_int_ge0[of c] by linarith
  show ?case
  proof (cases b)
    case Nil
    then show ?thesis using c0
      by (auto simp: strcasecmp_loop.simps[of "c # cs"] rank_str_Cons)
  next
    case (Cons d ds)
    have d0: "0 < tolower (of_char d) \<or> (of_char d :: int) = 0"
      using tolower_pos[of "of_char d"] of_char_int_ge0[of d] by linarith
    show ?thesis
      using Cons Cons.IH[of ds] c0 d0
      by (auto simp: strcasecmp_loop.simps[of "c # cs"] rank_str_Cons)
  qed
qed

lemma rank_str_neq_Nil [simp]: "rank_str k \<noteq> []" "[] \<noteq> rank_str k"
  by (simp_all add: rank_str_def)

lemma Nil_less_rank_str [simp]: "[] < rank_str k"
  by (cases "rank_str k") simp_all

lemma lookup_res_rank:
  assumes "nodes s c = Some cn" and "keyed s (is_object cn) a"
  shows "\<exists>r. lookup_res s (Some c) key idx (Some a) = ret r \<and>
             (0 < r \<longleftrightarrow> prank (is_object cn) key idx < rank_of s (is_object cn) a) \<and>
             (r = 0 \<longleftrightarrow> prank (is_object cn) key idx = rank_of s (is_object cn) a)"
proof -
  from assms(2) obtain n where n: "nodes s a = Some n"
    and k: "is_object cn \<longrightarrow> (\<exists>b k. string n = Some b \<and> bufs s b = Some k)"
    by (auto simp: keyed_def)
  show ?thesis
  proof (cases "is_object cn")
    case True
    with k obtain b kk where b: "string n = Some b" "bufs s b = Some kk" by auto
    show ?thesis
    proof (cases key)
      case None
      then show ?thesis
        using True assms(1) n b
        by (simp add: lookup_res_def get_Some rdstr_def cJSON_strcasecmp_def prank_def rank_of_def
            node_rank_def)
    next
      case (Some ks)
      then show ?thesis
        using True assms(1) n b strcasecmp_loop_rank[of ks kk]
        by (simp add: lookup_res_def get_Some rdstr_def cJSON_strcasecmp_def prank_def rank_of_def
            node_rank_def)
    qed
  next
    case False
    then show ?thesis
      using assms(1) n
      by (simp add: lookup_res_def get_Some prank_def rank_of_def node_rank_def)
  qed
qed


section \<open>The search\<close>

lemma tree_lookup_loop_descend:
  assumes "nodes s c = Some cn"
    and "rep (nodes s) (hole_parent k) p t"
    and "\<forall>a\<in>set (inorder t). keyed s (is_object cn) a"
  shows "tree_lookup_loop s (Some c) key idx p (hole_parent k) (hole_isleft k) =
           (case descend (rank_of s (is_object cn)) (prank (is_object cn) key idx) k t of
              (k', t') \<Rightarrow> ret (root_ptr t', hole_parent k', hole_isleft k'))"
  using assms(2,3)
proof (induction t arbitrary: k p)
  case Leaf
  then show ?case by (simp add: tree_lookup_loop.simps)
next
  case (Node l a r)
  from Node.prems(1) obtain n where n: "p = Some a" "nodes s a = Some n"
    "rep (nodes s) (Some a) (left n) l" "rep (nodes s) (Some a) (right n) r"
    by (auto simp: rep_Node_iff)
  have ka: "keyed s (is_object cn) a" using Node.prems(2) by simp
  obtain res where res: "lookup_res s (Some c) key idx (Some a) = ret res"
    "0 < res \<longleftrightarrow> prank (is_object cn) key idx < rank_of s (is_object cn) a"
    "res = 0 \<longleftrightarrow> prank (is_object cn) key idx = rank_of s (is_object cn) a"
    using lookup_res_rank[OF assms(1) ka, of key idx] by blast
  have L: "tree_lookup_loop s (Some c) key idx (left n) (hole_parent (InL k a r)) (hole_isleft (InL k a r)) =
           (case descend (rank_of s (is_object cn)) (prank (is_object cn) key idx) (InL k a r) l of
              (k', t') \<Rightarrow> ret (root_ptr t', hole_parent k', hole_isleft k'))"
    using Node.IH(1)[of "InL k a r" "left n"] n(3) Node.prems(2) by simp
  have R: "tree_lookup_loop s (Some c) key idx (right n) (hole_parent (InR l a k)) (hole_isleft (InR l a k)) =
           (case descend (rank_of s (is_object cn)) (prank (is_object cn) key idx) (InR l a k) r of
              (k', t') \<Rightarrow> ret (root_ptr t', hole_parent k', hole_isleft k'))"
    using Node.IH(2)[of "InR l a k" "right n"] n(4) Node.prems(2) by simp
  show ?case
    apply (subst tree_lookup_loop.simps)
    using n(1,2) res L R
    by (simp add: get_Some)
qed

lemma descend_plug: "descend \<rho> \<pi> k t = (k', t') \<Longrightarrow> plug k' t' = plug k t"
  by (induction t arbitrary: k) (auto split: if_splits)

lemma descend_found: "descend \<rho> \<pi> k t = (k', Node l a r) \<Longrightarrow> \<rho> a = \<pi>"
  by (induction t arbitrary: k) (auto split: if_splits)

lemma descend_rep:
  "descend \<rho> \<pi> k t = (k', t') \<Longrightarrow> repc h c k p \<Longrightarrow> rep h (hole_parent k) p t \<Longrightarrow>
   repc h c k' (root_ptr t') \<and> rep h (hole_parent k') (root_ptr t') t'"
proof (induction t arbitrary: k p)
  case Leaf
  then show ?case by auto
next
  case (Node l a r)
  from Node.prems(3) obtain n where n: "p = Some a" "h a = Some n" "parent n = hole_parent k"
    "rep h (Some a) (left n) l" "rep h (Some a) (right n) r"
    by (auto simp: rep_Node_iff)
  show ?case
  proof (cases "\<pi> = \<rho> a")
    case True
    then show ?thesis using Node.prems n by auto
  next
    case False
    show ?thesis
    proof (cases "\<pi> < \<rho> a")
      case True
      have "repc h c (InL k a r) (left n)"
        using n Node.prems(2) by (simp add: repc_InL_iff)
      then show ?thesis
        using Node.IH(1)[of "InL k a r" "left n"] Node.prems(1) False True n(4) by simp
    next
      case nl: False
      have "repc h c (InR l a k) (right n)"
        using n Node.prems(2) by (simp add: repc_InR_iff)
      then show ?thesis
        using Node.IH(2)[of "InR l a k" "right n"] Node.prems(1) False nl n(5) by simp
    qed
  qed
qed

txt \<open>In a sorted tree the search path separates the smaller from the larger ranks.\<close>

lemma descend_bounds:
  "descend \<rho> \<pi> k t = (k', t') \<Longrightarrow>
   sorted_wrt (<) (map \<rho> (cbefore k @ inorder t @ cafter k)) \<Longrightarrow>
   \<forall>x\<in>set (cbefore k). \<rho> x < \<pi> \<Longrightarrow> \<forall>x\<in>set (cafter k). \<pi> < \<rho> x \<Longrightarrow>
   (\<forall>x\<in>set (cbefore k'). \<rho> x < \<pi>) \<and> (\<forall>x\<in>set (cafter k'). \<pi> < \<rho> x)"
proof (induction t arbitrary: k)
  case Leaf
  then show ?case by auto
next
  case (Node l a r)
  show ?case
  proof (cases "\<pi> = \<rho> a")
    case True
    then show ?thesis using Node.prems by auto
  next
    case False
    show ?thesis
    proof (cases "\<pi> < \<rho> a")
      case True
      have "\<forall>x\<in>set (inorder r). \<rho> a < \<rho> x"
        using Node.prems(2) by (auto simp: sorted_wrt_append)
      then have "\<forall>x\<in>set (cafter (InL k a r)). \<pi> < \<rho> x"
        using True Node.prems(4) by auto
      then show ?thesis
        using Node.IH(1)[of "InL k a r"] Node.prems False True by simp
    next
      case nl: False
      then have gt: "\<rho> a < \<pi>" using False by simp
      have "\<forall>x\<in>set (inorder l). \<rho> x < \<rho> a"
        using Node.prems(2) by (auto simp: sorted_wrt_append)
      then have "\<forall>x\<in>set (cbefore (InR l a k)). \<rho> x < \<pi>"
        using gt Node.prems(3) by auto
      then show ?thesis
        using Node.IH(2)[of "InR l a k"] Node.prems False nl by simp
    qed
  qed
qed


section \<open>Rotations\<close>

txt \<open>A state that differs from another in links and root fields only.\<close>

lemma lrel_refl [simp]: "lrel n n"
  by (simp add: lrel_def)

lemma hrel_refl [simp]: "hrel h h"
  by (simp add: hrel_def option.rel_refl)

lemma hrel_upd: "hrel h h' \<Longrightarrow> h a = Some n \<Longrightarrow> lrel n n' \<Longrightarrow> hrel h (h'(a \<mapsto> n'))"
  by (simp add: hrel_def)

lemma rep_reparent:
  assumes "rep h par (Some x) t" and "h x = Some n" and "distinct (inorder t)"
  shows "rep (h(x \<mapsto> n\<lparr>parent := par'\<rparr>)) par' (Some x) t"
proof (cases t)
  case Leaf
  then show ?thesis using assms by simp
next
  case (Node l a r)
  with assms have a: "a = x" and l: "rep h (Some x) (left n) l" and r: "rep h (Some x) (right n) r"
    by (auto simp: rep_Node_iff)
  have nl: "x \<notin> set (inorder l)" and nr: "x \<notin> set (inorder r)" using assms(3) Node a by auto
  have "rep (h(x \<mapsto> n\<lparr>parent := par'\<rparr>)) (Some x) (left n) l"
    by (rule rep_frame[OF l]) (use nl in auto)
  moreover have "rep (h(x \<mapsto> n\<lparr>parent := par'\<rparr>)) (Some x) (right n) r"
    by (rule rep_frame[OF r]) (use nr in auto)
  ultimately have "rep (h(x \<mapsto> n\<lparr>parent := par'\<rparr>)) (Some x) (left n) l"
    "rep (h(x \<mapsto> n\<lparr>parent := par'\<rparr>)) (Some x) (right n) r" by auto
  then show ?thesis using Node a by (simp add: rep_Node_iff)
qed

lemma rep_reparent_ptr:
  assumes "rep h par p t" and "distinct (inorder t)"
  shows "rep (case p of None \<Rightarrow> h | Some x \<Rightarrow> h(x \<mapsto> (the (h x))\<lparr>parent := par'\<rparr>)) par' p t"
proof (cases t)
  case Leaf
  then show ?thesis using assms by simp
next
  case (Node l a r)
  with assms(1) obtain n where "p = Some a" "h a = Some n" by (auto simp: rep_Node_iff)
  then show ?thesis using rep_reparent[of h par a t n par'] assms by simp
qed

lemma rep_alloc: "rep h par p t \<Longrightarrow> a \<in> set (inorder t) \<Longrightarrow> \<exists>n. h a = Some n"
  by (induction t arbitrary: par p) (auto simp: rep_Node_iff)

lemma tree_rotate_left_zip:
  assumes c: "repc (nodes s) c k (Some p)"
    and t: "rep (nodes s) (hole_parent k) (Some p) (Node a p (Node b q d))"
    and dist: "distinct (inorder (plug k (Node a p (Node b q d))))"
    and cn: "c \<notin> set (inorder (plug k (Node a p (Node b q d))))"
  shows "\<exists>s'. tree_rotate_left (Some p) (Some c) s = ret s' \<and>
              repc (nodes s') c k (Some q) \<and>
              rep (nodes s') (hole_parent k) (Some q) (Node (Node a p b) q d) \<and>
              relinked s s'"
proof -
  let ?h = "nodes s"
  from t obtain pn qn where pn: "?h p = Some pn" "parent pn = hole_parent k"
    "rep ?h (Some p) (left pn) a" "right pn = Some q"
    and qn: "?h q = Some qn" "parent qn = Some p" "rep ?h (Some q) (left qn) b"
    "rep ?h (Some q) (right qn) d"
    by (auto simp: rep_Node_iff)
  have d1: "p \<noteq> q" "p \<notin> set (inorder a)" "p \<notin> set (inorder b)" "p \<notin> set (inorder d)"
    "q \<notin> set (inorder a)" "q \<notin> set (inorder b)" "q \<notin> set (inorder d)"
    "set (inorder a) \<inter> set (inorder b) = {}" "set (inorder a) \<inter> set (inorder d) = {}"
    "set (inorder b) \<inter> set (inorder d) = {}"
    "p \<notin> cset k" "q \<notin> cset k" "set (inorder a) \<inter> cset k = {}"
    "set (inorder b) \<inter> cset k = {}" "set (inorder d) \<inter> cset k = {}"
    "distinct (inorder a)" "distinct (inorder b)" "distinct (inorder d)"
    using dist by (auto simp: inorder_plug cset_def)
  have d2: "c \<noteq> p" "c \<noteq> q" "c \<notin> set (inorder a)" "c \<notin> set (inorder b)" "c \<notin> set (inorder d)"
    "c \<notin> cset k"
    using cn by (auto simp: inorder_plug cset_def)
  txt \<open>the heap after the first three assignments\<close>
  define h1 where "h1 =
    (case k of
       Top \<Rightarrow> ?h(c \<mapsto> (the (?h c))\<lparr>root := Some q\<rparr>)
     | InL k' g u \<Rightarrow> ?h(g \<mapsto> (the (?h g))\<lparr>left := Some q\<rparr>)
     | InR u g k' \<Rightarrow> ?h(g \<mapsto> (the (?h g))\<lparr>right := Some q\<rparr>))"
  define h3 where "h3 = h1(q \<mapsto> qn\<lparr>parent := hole_parent k\<rparr>, p \<mapsto> pn\<lparr>parent := Some q\<rparr>)"
  have s3: "\<And>K :: state \<Rightarrow> state res. bnd (if hole_parent k \<noteq> None then
            bnd (get s (hole_parent k) left) (\<lambda>pl.
              if pl = Some p then put s (hole_parent k) (\<lambda>n. n\<lparr>left := Some q\<rparr>)
              else put s (hole_parent k) (\<lambda>n. n\<lparr>right := Some q\<rparr>))
          else put s (Some c) (\<lambda>n. n\<lparr>root := Some q\<rparr>)) (\<lambda>s1.
     bnd (set_parent (hole_parent k) (Some q) s1) (\<lambda>s2.
     bnd (set_parent (Some q) (Some p) s2) K)) = K (s\<lparr>nodes := h3\<rparr>)"
  proof (cases k)
    case Top
    with c obtain cnode where "?h c = Some cnode" by (auto simp: repc_Top_iff)
    then show "?thesis K" for K using Top pn qn d1 d2
      by (simp add: h1_def h3_def get_Some put_Some set_parent_def)
  next
    case (InL k' g u)
    with c obtain gn where gn: "?h g = Some gn" "left gn = Some p" by (auto simp: repc_InL_iff)
    have "g \<noteq> p" "g \<noteq> q" using d1 InL by auto
    then show "?thesis K" for K using InL pn qn gn d1 d2
      by (simp add: h1_def h3_def get_Some put_Some set_parent_def)
  next
    case (InR u g k')
    with c obtain gn where gn: "?h g = Some gn" "right gn = Some p" "rep ?h (Some g) (left gn) u"
      by (auto simp: repc_InR_iff)
    have "g \<noteq> p" "g \<noteq> q" using d1 InR by auto
    moreover have "left gn \<noteq> Some p"
    proof
      assume "left gn = Some p"
      with gn(3) have "p \<in> set (inorder u)" by (cases u) (auto simp: rep_Node_iff)
      then show False using d1 InR by auto
    qed
    ultimately show "?thesis K" for K using InR pn qn gn d1 d2
      by (simp add: h1_def h3_def get_Some put_Some set_parent_def)
  qed
  have h3q: "h3 q = Some (qn\<lparr>parent := hole_parent k\<rparr>)"
    and h3p: "h3 p = Some (pn\<lparr>parent := Some q\<rparr>)"
    using d1 by (simp_all add: h3_def)
  define h5 where "h5 =
     (case left qn of None \<Rightarrow> h3(p \<mapsto> pn\<lparr>parent := Some q, right := None\<rparr>)
      | Some ba \<Rightarrow> h3(p \<mapsto> pn\<lparr>parent := Some q, right := Some ba\<rparr>,
                       ba \<mapsto> (the (?h ba))\<lparr>parent := Some p\<rparr>))"
  define h6 where "h6 = h5(q \<mapsto> qn\<lparr>parent := hole_parent k, left := Some p\<rparr>)"
  have other: "\<And>x. x \<in> set (inorder b) \<Longrightarrow> h3 x = ?h x"
    using d1 d2 by (cases k) (auto simp: h3_def h1_def)
  have s6: "bnd (get (s\<lparr>nodes := h3\<rparr>) (Some q) left) (\<lambda>ql.
     bnd (put (s\<lparr>nodes := h3\<rparr>) (Some p) (\<lambda>n. n\<lparr>right := ql\<rparr>)) (\<lambda>s4.
     bnd (get s4 (Some p) right) (\<lambda>pr.
     bnd (if pr \<noteq> None then set_parent (Some p) pr s4 else ret s4) (\<lambda>s5.
     put s5 (Some q) (\<lambda>n. n\<lparr>left := Some p\<rparr>))))) = ret (s\<lparr>nodes := h6\<rparr>)"
  proof (cases b)
    case Leaf
    with qn have "left qn = None" by simp
    then show ?thesis using h3q h3p d1
      by (simp add: h5_def h6_def get_Some put_Some set_parent_def)
  next
    case (Node bl ba br)
    with qn obtain ban where ban: "left qn = Some ba" "?h ba = Some ban"
      by (auto simp: rep_Node_iff)
    have "ba \<in> set (inorder b)" using Node by simp
    then have "ba \<noteq> p" "ba \<noteq> q" "h3 ba = Some ban" using d1 other ban by auto
    then show ?thesis using h3q h3p d1 ban
      by (simp add: h5_def h6_def get_Some put_Some set_parent_def fun_upd_twist)
  qed
  have run: "tree_rotate_left (Some p) (Some c) s = ret (s\<lparr>nodes := h6\<rparr>)"
    unfolding tree_rotate_left_def
    apply (simp only: get_Some[OF pn(1)] bnd_ret pn(2) pn(4))
    apply (simp only: s3)
    apply (simp only: s6)
    done
  txt \<open>what the final heap holds\<close>
  have lq: "\<And>ba. left qn = Some ba \<Longrightarrow> ba \<in> set (inorder b)"
    using qn(3) by (cases b) (auto simp: rep_Node_iff)
  have hp: "\<And>g. hole_parent k = Some g \<Longrightarrow> g \<in> cset k"
    by (cases k) auto
  have unt: "\<And>x. x \<noteq> p \<Longrightarrow> x \<noteq> q \<Longrightarrow> hole_parent k \<noteq> Some x \<Longrightarrow> left qn \<noteq> Some x
      \<Longrightarrow> (k = Top \<longrightarrow> x \<noteq> c) \<Longrightarrow> h6 x = ?h x"
    by (auto simp: h6_def h5_def h3_def h1_def split: ctx.splits option.splits)
  have h6q: "h6 q = Some (qn\<lparr>parent := hole_parent k, left := Some p\<rparr>)"
    by (simp add: h6_def)
  have h6p: "h6 p = Some (pn\<lparr>parent := Some q, right := left qn\<rparr>)"
    using d1 lq by (auto simp: h6_def h5_def split: option.splits)
  have fr_a: "\<And>x. x \<in> set (inorder a) \<Longrightarrow> h6 x = ?h x"
    using d1 d2 lq hp by (intro unt) auto
  have fr_d: "\<And>x. x \<in> set (inorder d) \<Longrightarrow> h6 x = ?h x"
    using d1 d2 lq hp by (intro unt) auto
  have rep_a: "rep h6 (Some p) (left pn) a"
    using rep_frame[OF pn(3), of h6] fr_a by simp
  have rep_d: "rep h6 (Some q) (right qn) d"
    using rep_frame[OF qn(4), of h6] fr_d by simp
  have rep_b: "rep h6 (Some p) (left qn) b"
  proof (cases b)
    case Leaf
    then show ?thesis using qn by simp
  next
    case (Node bl ba br)
    with qn obtain ban where ban: "left qn = Some ba" "?h ba = Some ban"
      "rep ?h (Some ba) (left ban) bl" "rep ?h (Some ba) (right ban) br"
      by (auto simp: rep_Node_iff)
    have ba: "ba \<in> set (inorder b)" using Node by simp
    have ne: "ba \<noteq> p" "ba \<noteq> q" "ba \<notin> set (inorder bl)" "ba \<notin> set (inorder br)"
      using d1 ba Node by auto
    have h6ba: "h6 ba = Some (ban\<lparr>parent := Some p\<rparr>)"
      using ne ban by (simp add: h6_def h5_def)
    have frb: "\<And>x. x \<in> set (inorder bl) \<union> set (inorder br) \<Longrightarrow> h6 x = ?h x"
    proof -
      fix x assume x: "x \<in> set (inorder bl) \<union> set (inorder br)"
      then have "x \<in> set (inorder b)" "x \<noteq> ba" using Node ne by auto
      then show "h6 x = ?h x" using d1 d2 hp ban by (intro unt) auto
    qed
    have "rep h6 (Some ba) (left ban) bl" "rep h6 (Some ba) (right ban) br"
      using rep_frame[OF ban(3), of h6] rep_frame[OF ban(4), of h6] frb by auto
    then show ?thesis using Node ban h6ba by (simp add: rep_Node_iff)
  qed
  have rep_new: "rep h6 (hole_parent k) (Some q) (Node (Node a p b) q d)"
    using h6q h6p rep_a rep_b rep_d by (simp add: rep_Node_iff)
  have repc_new: "repc h6 c k (Some q)"
  proof (cases k)
    case Top
    with c obtain cnode where "?h c = Some cnode" by (auto simp: repc_Top_iff)
    then have "h6 c = Some (cnode\<lparr>root := Some q\<rparr>)"
      using Top d1 d2 lq
      by (auto simp: h6_def h5_def h3_def h1_def split: option.splits)
    then show ?thesis using Top by (simp add: repc_Top_iff)
  next
    case (InL k' g u)
    with c obtain gn where gn: "?h g = Some gn" "left gn = Some p" "parent gn = hole_parent k'"
      "rep ?h (Some g) (right gn) u" "repc ?h c k' (Some g)"
      by (auto simp: repc_InL_iff)
    have ne: "g \<noteq> p" "g \<noteq> q" "g \<notin> set (inorder b)" using d1 InL by auto
    have h6g: "h6 g = Some (gn\<lparr>left := Some q\<rparr>)"
      using ne gn lq InL
      by (auto simp: h6_def h5_def h3_def h1_def split: option.splits)
    have dk: "g \<notin> set (inorder u)" "g \<notin> cset k'"
      using dist InL by (auto simp: inorder_plug cset_def)
    have fr: "\<And>x. x \<in> set (inorder u) \<union> cset k' \<Longrightarrow> h6 x = ?h x"
      using d1 d2 lq InL dk by (intro unt) auto
    have h6c: "h6 c = ?h c"
      using d1 d2 lq InL by (intro unt) auto
    have "rep h6 (Some g) (right gn) u" using rep_frame[OF gn(4), of h6] fr by simp
    moreover have "repc h6 c k' (Some g)" using repc_frame[OF gn(5), of h6] fr h6c by simp
    ultimately show ?thesis using InL h6g gn by (simp add: repc_InL_iff)
  next
    case (InR u g k')
    with c obtain gn where gn: "?h g = Some gn" "right gn = Some p" "parent gn = hole_parent k'"
      "rep ?h (Some g) (left gn) u" "repc ?h c k' (Some g)"
      by (auto simp: repc_InR_iff)
    have ne: "g \<noteq> p" "g \<noteq> q" "g \<notin> set (inorder b)" using d1 InR by auto
    have h6g: "h6 g = Some (gn\<lparr>right := Some q\<rparr>)"
      using ne gn lq InR
      by (auto simp: h6_def h5_def h3_def h1_def split: option.splits)
    have dk: "g \<notin> set (inorder u)" "g \<notin> cset k'"
      using dist InR by (auto simp: inorder_plug cset_def)
    have fr: "\<And>x. x \<in> set (inorder u) \<union> cset k' \<Longrightarrow> h6 x = ?h x"
      using d1 d2 lq InR dk by (intro unt) auto
    have h6c: "h6 c = ?h c"
      using d1 d2 lq InR by (intro unt) auto
    have "rep h6 (Some g) (left gn) u" using rep_frame[OF gn(4), of h6] fr by simp
    moreover have "repc h6 c k' (Some g)" using repc_frame[OF gn(5), of h6] fr h6c by simp
    ultimately show ?thesis using InR h6g gn by (simp add: repc_InR_iff)
  qed
  have r1: "hrel ?h h1"
  proof (cases k)
    case Top
    with c obtain cnode where "?h c = Some cnode" by (auto simp: repc_Top_iff)
    then show ?thesis using Top unfolding h1_def
      by (auto intro!: hrel_upd simp: lrel_def)
  next
    case (InL k' g u)
    with c obtain gn where "?h g = Some gn" by (auto simp: repc_InL_iff)
    then show ?thesis using InL unfolding h1_def
      by (auto intro!: hrel_upd simp: lrel_def)
  next
    case (InR u g k')
    with c obtain gn where "?h g = Some gn" by (auto simp: repc_InR_iff)
    then show ?thesis using InR unfolding h1_def
      by (auto intro!: hrel_upd simp: lrel_def)
  qed
  have r3: "hrel ?h h3"
    unfolding h3_def using pn(1) qn(1)
    by (intro hrel_upd r1) (auto simp: lrel_def)
  have r5: "hrel ?h h5"
  proof (cases b)
    case Leaf
    with qn have "left qn = None" by simp
    then show ?thesis unfolding h5_def using pn(1)
      by (auto intro!: hrel_upd r3 simp: lrel_def)
  next
    case (Node bl ba br)
    with qn obtain ban where ban: "left qn = Some ba" "?h ba = Some ban"
      by (auto simp: rep_Node_iff)
    then show ?thesis unfolding h5_def using pn(1)
      by (auto intro!: hrel_upd r3 simp: lrel_def)
  qed
  have r6: "hrel ?h h6"
    unfolding h6_def using qn(1)
    by (intro hrel_upd r5) (auto simp: lrel_def)
  have rl: "relinked s (s\<lparr>nodes := h6\<rparr>)"
    unfolding relinked_def using r6 by blast
  show ?thesis using run repc_new rep_new rl by (intro exI[of _ "s\<lparr>nodes := h6\<rparr>"]) simp
qed

lemma tree_rotate_right_zip:
  assumes c: "repc (nodes s) c k (Some p)"
    and t: "rep (nodes s) (hole_parent k) (Some p) (Node (Node a q b) p d)"
    and dist: "distinct (inorder (plug k (Node (Node a q b) p d)))"
    and cn: "c \<notin> set (inorder (plug k (Node (Node a q b) p d)))"
  shows "\<exists>s'. tree_rotate_right (Some p) (Some c) s = ret s' \<and>
              repc (nodes s') c k (Some q) \<and>
              rep (nodes s') (hole_parent k) (Some q) (Node a q (Node b p d)) \<and>
              relinked s s'"
proof -
  let ?h = "nodes s"
  from t obtain pn qn where pn: "?h p = Some pn" "parent pn = hole_parent k"
    "rep ?h (Some p) (right pn) d" "left pn = Some q"
    and qn: "?h q = Some qn" "parent qn = Some p" "rep ?h (Some q) (right qn) b"
    "rep ?h (Some q) (left qn) a"
    by (auto simp: rep_Node_iff)
  have d1: "p \<noteq> q" "p \<notin> set (inorder a)" "p \<notin> set (inorder b)" "p \<notin> set (inorder d)"
    "q \<notin> set (inorder a)" "q \<notin> set (inorder b)" "q \<notin> set (inorder d)"
    "set (inorder a) \<inter> set (inorder b) = {}" "set (inorder a) \<inter> set (inorder d) = {}"
    "set (inorder b) \<inter> set (inorder d) = {}"
    "p \<notin> cset k" "q \<notin> cset k" "set (inorder a) \<inter> cset k = {}"
    "set (inorder b) \<inter> cset k = {}" "set (inorder d) \<inter> cset k = {}"
    "distinct (inorder a)" "distinct (inorder b)" "distinct (inorder d)"
    using dist by (auto simp: inorder_plug cset_def)
  have d2: "c \<noteq> p" "c \<noteq> q" "c \<notin> set (inorder a)" "c \<notin> set (inorder b)" "c \<notin> set (inorder d)"
    "c \<notin> cset k"
    using cn by (auto simp: inorder_plug cset_def)
  txt \<open>the heap after the first three assignments\<close>
  define h1 where "h1 =
    (case k of
       Top \<Rightarrow> ?h(c \<mapsto> (the (?h c))\<lparr>root := Some q\<rparr>)
     | InL k' g u \<Rightarrow> ?h(g \<mapsto> (the (?h g))\<lparr>left := Some q\<rparr>)
     | InR u g k' \<Rightarrow> ?h(g \<mapsto> (the (?h g))\<lparr>right := Some q\<rparr>))"
  define h3 where "h3 = h1(q \<mapsto> qn\<lparr>parent := hole_parent k\<rparr>, p \<mapsto> pn\<lparr>parent := Some q\<rparr>)"
  have s3: "\<And>K :: state \<Rightarrow> state res. bnd (if hole_parent k \<noteq> None then
            bnd (get s (hole_parent k) left) (\<lambda>pl.
              if pl = Some p then put s (hole_parent k) (\<lambda>n. n\<lparr>left := Some q\<rparr>)
              else put s (hole_parent k) (\<lambda>n. n\<lparr>right := Some q\<rparr>))
          else put s (Some c) (\<lambda>n. n\<lparr>root := Some q\<rparr>)) (\<lambda>s1.
     bnd (set_parent (hole_parent k) (Some q) s1) (\<lambda>s2.
     bnd (set_parent (Some q) (Some p) s2) K)) = K (s\<lparr>nodes := h3\<rparr>)"
  proof (cases k)
    case Top
    with c obtain cnode where "?h c = Some cnode" by (auto simp: repc_Top_iff)
    then show "?thesis K" for K using Top pn qn d1 d2
      by (simp add: h1_def h3_def get_Some put_Some set_parent_def)
  next
    case (InL k' g u)
    with c obtain gn where gn: "?h g = Some gn" "left gn = Some p" by (auto simp: repc_InL_iff)
    have "g \<noteq> p" "g \<noteq> q" using d1 InL by auto
    then show "?thesis K" for K using InL pn qn gn d1 d2
      by (simp add: h1_def h3_def get_Some put_Some set_parent_def)
  next
    case (InR u g k')
    with c obtain gn where gn: "?h g = Some gn" "right gn = Some p" "rep ?h (Some g) (left gn) u"
      by (auto simp: repc_InR_iff)
    have "g \<noteq> p" "g \<noteq> q" using d1 InR by auto
    moreover have "left gn \<noteq> Some p"
    proof
      assume "left gn = Some p"
      with gn(3) have "p \<in> set (inorder u)" by (cases u) (auto simp: rep_Node_iff)
      then show False using d1 InR by auto
    qed
    ultimately show "?thesis K" for K using InR pn qn gn d1 d2
      by (simp add: h1_def h3_def get_Some put_Some set_parent_def)
  qed
  have h3q: "h3 q = Some (qn\<lparr>parent := hole_parent k\<rparr>)"
    and h3p: "h3 p = Some (pn\<lparr>parent := Some q\<rparr>)"
    using d1 by (simp_all add: h3_def)
  define h5 where "h5 =
     (case right qn of None \<Rightarrow> h3(p \<mapsto> pn\<lparr>parent := Some q, left := None\<rparr>)
      | Some ba \<Rightarrow> h3(p \<mapsto> pn\<lparr>parent := Some q, left := Some ba\<rparr>,
                       ba \<mapsto> (the (?h ba))\<lparr>parent := Some p\<rparr>))"
  define h6 where "h6 = h5(q \<mapsto> qn\<lparr>parent := hole_parent k, right := Some p\<rparr>)"
  have other: "\<And>x. x \<in> set (inorder b) \<Longrightarrow> h3 x = ?h x"
    using d1 d2 by (cases k) (auto simp: h3_def h1_def)
  have s6: "bnd (get (s\<lparr>nodes := h3\<rparr>) (Some q) right) (\<lambda>qr.
     bnd (put (s\<lparr>nodes := h3\<rparr>) (Some p) (\<lambda>n. n\<lparr>left := qr\<rparr>)) (\<lambda>s4.
     bnd (get s4 (Some p) left) (\<lambda>pl.
     bnd (if pl \<noteq> None then set_parent (Some p) pl s4 else ret s4) (\<lambda>s5.
     put s5 (Some q) (\<lambda>n. n\<lparr>right := Some p\<rparr>))))) = ret (s\<lparr>nodes := h6\<rparr>)"
  proof (cases b)
    case Leaf
    with qn have "right qn = None" by simp
    then show ?thesis using h3q h3p d1
      by (simp add: h5_def h6_def get_Some put_Some set_parent_def)
  next
    case (Node bl ba br)
    with qn obtain ban where ban: "right qn = Some ba" "?h ba = Some ban"
      by (auto simp: rep_Node_iff)
    have "ba \<in> set (inorder b)" using Node by simp
    then have "ba \<noteq> p" "ba \<noteq> q" "h3 ba = Some ban" using d1 other ban by auto
    then show ?thesis using h3q h3p d1 ban
      by (simp add: h5_def h6_def get_Some put_Some set_parent_def fun_upd_twist)
  qed
  have run: "tree_rotate_right (Some p) (Some c) s = ret (s\<lparr>nodes := h6\<rparr>)"
    unfolding tree_rotate_right_def
    apply (simp only: get_Some[OF pn(1)] bnd_ret pn(2) pn(4))
    apply (simp only: s3)
    apply (simp only: s6)
    done
  txt \<open>what the final heap holds\<close>
  have lq: "\<And>ba. right qn = Some ba \<Longrightarrow> ba \<in> set (inorder b)"
    using qn(3) by (cases b) (auto simp: rep_Node_iff)
  have hp: "\<And>g. hole_parent k = Some g \<Longrightarrow> g \<in> cset k"
    by (cases k) auto
  have unt: "\<And>x. x \<noteq> p \<Longrightarrow> x \<noteq> q \<Longrightarrow> hole_parent k \<noteq> Some x \<Longrightarrow> right qn \<noteq> Some x
      \<Longrightarrow> (k = Top \<longrightarrow> x \<noteq> c) \<Longrightarrow> h6 x = ?h x"
    by (auto simp: h6_def h5_def h3_def h1_def split: ctx.splits option.splits)
  have h6q: "h6 q = Some (qn\<lparr>parent := hole_parent k, right := Some p\<rparr>)"
    by (simp add: h6_def)
  have h6p: "h6 p = Some (pn\<lparr>parent := Some q, left := right qn\<rparr>)"
    using d1 lq by (auto simp: h6_def h5_def split: option.splits)
  have fr_a: "\<And>x. x \<in> set (inorder a) \<Longrightarrow> h6 x = ?h x"
    using d1 d2 lq hp by (intro unt) auto
  have fr_d: "\<And>x. x \<in> set (inorder d) \<Longrightarrow> h6 x = ?h x"
    using d1 d2 lq hp by (intro unt) auto
  have rep_a: "rep h6 (Some q) (left qn) a"
    using rep_frame[OF qn(4), of h6] fr_a by simp
  have rep_d: "rep h6 (Some p) (right pn) d"
    using rep_frame[OF pn(3), of h6] fr_d by simp
  have rep_b: "rep h6 (Some p) (right qn) b"
  proof (cases b)
    case Leaf
    then show ?thesis using qn by simp
  next
    case (Node bl ba br)
    with qn obtain ban where ban: "right qn = Some ba" "?h ba = Some ban"
      "rep ?h (Some ba) (left ban) bl" "rep ?h (Some ba) (right ban) br"
      by (auto simp: rep_Node_iff)
    have ba: "ba \<in> set (inorder b)" using Node by simp
    have ne: "ba \<noteq> p" "ba \<noteq> q" "ba \<notin> set (inorder bl)" "ba \<notin> set (inorder br)"
      using d1 ba Node by auto
    have h6ba: "h6 ba = Some (ban\<lparr>parent := Some p\<rparr>)"
      using ne ban by (simp add: h6_def h5_def)
    have frb: "\<And>x. x \<in> set (inorder bl) \<union> set (inorder br) \<Longrightarrow> h6 x = ?h x"
    proof -
      fix x assume x: "x \<in> set (inorder bl) \<union> set (inorder br)"
      then have "x \<in> set (inorder b)" "x \<noteq> ba" using Node ne by auto
      then show "h6 x = ?h x" using d1 d2 hp ban by (intro unt) auto
    qed
    have "rep h6 (Some ba) (left ban) bl" "rep h6 (Some ba) (right ban) br"
      using rep_frame[OF ban(3), of h6] rep_frame[OF ban(4), of h6] frb by auto
    then show ?thesis using Node ban h6ba by (simp add: rep_Node_iff)
  qed
  have rep_new: "rep h6 (hole_parent k) (Some q) (Node a q (Node b p d))"
    using h6q h6p rep_a rep_b rep_d by (simp add: rep_Node_iff)
  have repc_new: "repc h6 c k (Some q)"
  proof (cases k)
    case Top
    with c obtain cnode where "?h c = Some cnode" by (auto simp: repc_Top_iff)
    then have "h6 c = Some (cnode\<lparr>root := Some q\<rparr>)"
      using Top d1 d2 lq
      by (auto simp: h6_def h5_def h3_def h1_def split: option.splits)
    then show ?thesis using Top by (simp add: repc_Top_iff)
  next
    case (InL k' g u)
    with c obtain gn where gn: "?h g = Some gn" "left gn = Some p" "parent gn = hole_parent k'"
      "rep ?h (Some g) (right gn) u" "repc ?h c k' (Some g)"
      by (auto simp: repc_InL_iff)
    have ne: "g \<noteq> p" "g \<noteq> q" "g \<notin> set (inorder b)" using d1 InL by auto
    have h6g: "h6 g = Some (gn\<lparr>left := Some q\<rparr>)"
      using ne gn lq InL
      by (auto simp: h6_def h5_def h3_def h1_def split: option.splits)
    have dk: "g \<notin> set (inorder u)" "g \<notin> cset k'"
      using dist InL by (auto simp: inorder_plug cset_def)
    have fr: "\<And>x. x \<in> set (inorder u) \<union> cset k' \<Longrightarrow> h6 x = ?h x"
      using d1 d2 lq InL dk by (intro unt) auto
    have h6c: "h6 c = ?h c"
      using d1 d2 lq InL by (intro unt) auto
    have "rep h6 (Some g) (right gn) u" using rep_frame[OF gn(4), of h6] fr by simp
    moreover have "repc h6 c k' (Some g)" using repc_frame[OF gn(5), of h6] fr h6c by simp
    ultimately show ?thesis using InL h6g gn by (simp add: repc_InL_iff)
  next
    case (InR u g k')
    with c obtain gn where gn: "?h g = Some gn" "right gn = Some p" "parent gn = hole_parent k'"
      "rep ?h (Some g) (left gn) u" "repc ?h c k' (Some g)"
      by (auto simp: repc_InR_iff)
    have ne: "g \<noteq> p" "g \<noteq> q" "g \<notin> set (inorder b)" using d1 InR by auto
    have h6g: "h6 g = Some (gn\<lparr>right := Some q\<rparr>)"
      using ne gn lq InR
      by (auto simp: h6_def h5_def h3_def h1_def split: option.splits)
    have dk: "g \<notin> set (inorder u)" "g \<notin> cset k'"
      using dist InR by (auto simp: inorder_plug cset_def)
    have fr: "\<And>x. x \<in> set (inorder u) \<union> cset k' \<Longrightarrow> h6 x = ?h x"
      using d1 d2 lq InR dk by (intro unt) auto
    have h6c: "h6 c = ?h c"
      using d1 d2 lq InR by (intro unt) auto
    have "rep h6 (Some g) (left gn) u" using rep_frame[OF gn(4), of h6] fr by simp
    moreover have "repc h6 c k' (Some g)" using repc_frame[OF gn(5), of h6] fr h6c by simp
    ultimately show ?thesis using InR h6g gn by (simp add: repc_InR_iff)
  qed
  have r1: "hrel ?h h1"
  proof (cases k)
    case Top
    with c obtain cnode where "?h c = Some cnode" by (auto simp: repc_Top_iff)
    then show ?thesis using Top unfolding h1_def
      by (auto intro!: hrel_upd simp: lrel_def)
  next
    case (InL k' g u)
    with c obtain gn where "?h g = Some gn" by (auto simp: repc_InL_iff)
    then show ?thesis using InL unfolding h1_def
      by (auto intro!: hrel_upd simp: lrel_def)
  next
    case (InR u g k')
    with c obtain gn where "?h g = Some gn" by (auto simp: repc_InR_iff)
    then show ?thesis using InR unfolding h1_def
      by (auto intro!: hrel_upd simp: lrel_def)
  qed
  have r3: "hrel ?h h3"
    unfolding h3_def using pn(1) qn(1)
    by (intro hrel_upd r1) (auto simp: lrel_def)
  have r5: "hrel ?h h5"
  proof (cases b)
    case Leaf
    with qn have "right qn = None" by simp
    then show ?thesis unfolding h5_def using pn(1)
      by (auto intro!: hrel_upd r3 simp: lrel_def)
  next
    case (Node bl ba br)
    with qn obtain ban where ban: "right qn = Some ba" "?h ba = Some ban"
      by (auto simp: rep_Node_iff)
    then show ?thesis unfolding h5_def using pn(1)
      by (auto intro!: hrel_upd r3 simp: lrel_def)
  qed
  have r6: "hrel ?h h6"
    unfolding h6_def using qn(1)
    by (intro hrel_upd r5) (auto simp: lrel_def)
  have rl: "relinked s (s\<lparr>nodes := h6\<rparr>)"
    unfolding relinked_def using r6 by blast
  show ?thesis using run repc_new rep_new rl by (intro exI[of _ "s\<lparr>nodes := h6\<rparr>"]) simp
qed


section \<open>Recolouring\<close>

lemma crel_iff:
  "crel n n' \<longleftrightarrow>
     first n' = first n \<and> last' n' = last' n \<and> count n' = count n \<and> index n' = index n \<and>
     kind n' = kind n \<and> is_reference n' = is_reference n \<and> string n' = string n \<and>
     valuestring n' = valuestring n \<and> vstrlen n' = vstrlen n \<and> valueint n' = valueint n \<and>
     valuedouble n' = valuedouble n"
  by (cases n; cases n') (auto simp: crel_def)

lemma lrel_iff:
  "lrel n n' \<longleftrightarrow> crel n n' \<and> isred n' = isred n"
  by (cases n; cases n') (auto simp: crel_def lrel_def)

lemma rebalanced_refl [simp]: "rebalanced s s"
  unfolding rebalanced_def
  by (intro exI[of _ "nodes s"]) (simp add: option.rel_refl crel_iff)

lemma rebalanced_trans: "rebalanced s s1 \<Longrightarrow> rebalanced s1 s2 \<Longrightarrow> rebalanced s s2"
proof -
  assume a: "rebalanced s s1" and b: "rebalanced s1 s2"
  from a obtain h1 where h1: "s1 = s\<lparr>nodes := h1\<rparr>" "\<forall>x. rel_option crel (nodes s x) (h1 x)"
    by (auto simp: rebalanced_def)
  from b obtain h2 where h2: "s2 = s1\<lparr>nodes := h2\<rparr>" "\<forall>x. rel_option crel (nodes s1 x) (h2 x)"
    by (auto simp: rebalanced_def)
  have "\<And>x. rel_option crel (nodes s x) (h2 x)"
  proof -
    fix x
    have "rel_option crel (nodes s x) (h1 x)" "rel_option crel (h1 x) (h2 x)"
      using h1 h2 by auto
    then show "rel_option crel (nodes s x) (h2 x)"
      by (cases "nodes s x"; cases "h1 x"; cases "h2 x") (auto simp: crel_iff)
  qed
  then show ?thesis using h1 h2 by (auto simp: rebalanced_def)
qed

lemma relinked_rebalanced: "relinked s s' \<Longrightarrow> rebalanced s s'"
proof -
  assume "relinked s s'"
  then obtain h' where h: "s' = s\<lparr>nodes := h'\<rparr>" "\<forall>x. rel_option lrel (nodes s x) (h' x)"
    by (auto simp: relinked_def hrel_def)
  have "\<And>x. rel_option crel (nodes s x) (h' x)"
  proof -
    fix x
    have "rel_option lrel (nodes s x) (h' x)" using h by simp
    then show "rel_option crel (nodes s x) (h' x)"
      by (cases "nodes s x"; cases "h' x") (auto simp: lrel_iff)
  qed
  then show ?thesis using h unfolding rebalanced_def by blast
qed

lemma rebalanced_recolour:
  "nodes s a = Some n \<Longrightarrow> rebalanced s (s\<lparr>nodes := (nodes s)(a \<mapsto> n\<lparr>isred := b\<rparr>)\<rparr>)"
  unfolding rebalanced_def
  by (intro exI[of _ "(nodes s)(a \<mapsto> n\<lparr>isred := b\<rparr>)"]) (auto simp: option.rel_refl crel_iff)

lemma relinked_isred: "relinked s s' \<Longrightarrow> isred_at (nodes s') a = isred_at (nodes s) a"
  unfolding relinked_def hrel_def isred_at_def
proof -
  assume "\<exists>h'. s' = s\<lparr>nodes := h'\<rparr> \<and> (\<forall>x. rel_option lrel (nodes s x) (h' x))"
  then obtain h' where h: "s' = s\<lparr>nodes := h'\<rparr>" "rel_option lrel (nodes s a) (h' a)" by auto
  then show "(case nodes s' a of None \<Rightarrow> False | Some n \<Rightarrow> isred n) =
             (case nodes s a of None \<Rightarrow> False | Some n \<Rightarrow> isred n)"
    by (cases "nodes s a"; cases "h' a") (auto simp: lrel_iff)
qed

txt \<open>Recolouring leaves the shape alone.\<close>

lemma links_recolour:
  "h a = Some n \<Longrightarrow> links ((h(a \<mapsto> n\<lparr>isred := b\<rparr>)) x) = links (h x)"
  by (simp add: links_def)

lemma rep_recolour:
  "rep h par p t \<Longrightarrow> h a = Some n \<Longrightarrow> rep (h(a \<mapsto> n\<lparr>isred := b\<rparr>)) par p t"
  by (erule rep_frame) (rule links_recolour)

lemma repc_recolour:
  "repc h c k p \<Longrightarrow> h a = Some n \<Longrightarrow> repc (h(a \<mapsto> n\<lparr>isred := b\<rparr>)) c k p"
  apply (erule repc_frame)
   apply (rule links_recolour, assumption)
  apply auto
  done

lemma ctx_top_cset: "ctx_top k = Some a \<Longrightarrow> a \<in> cset k"
  by (induction k) (auto split: option.splits)

lemma root_ptr_plug:
  "root_ptr (plug k t) = (case ctx_top k of None \<Rightarrow> root_ptr t | Some x \<Rightarrow> Some x)"
  by (induction k arbitrary: t) (auto split: option.splits)

lemma insert_fixup_exit_root:
  "nodes s x = Some xn \<Longrightarrow> parent xn = None \<Longrightarrow> insert_fixup s (Some x) c = ret s"
  by (subst insert_fixup.simps) (simp add: get_Some is_red_def)

lemma insert_fixup_exit_black:
  "nodes s x = Some xn \<Longrightarrow> parent xn = Some p \<Longrightarrow> nodes s p = Some pn \<Longrightarrow> \<not> isred pn \<Longrightarrow>
   insert_fixup s (Some x) c = ret s"
  by (subst insert_fixup.simps) (simp add: get_Some is_red_def)

lemma whole_tree:
  assumes "repc h c k p" and "rep h (hole_parent k) p t"
  shows "repc h c Top (root_ptr (plug k t)) \<and> rep h None (root_ptr (plug k t)) (plug k t)"
proof -
  from assms have "\<exists>n. h c = Some n \<and> rep h None (root n) (plug k t)"
    using rep_plug[of h c k t] by blast
  then obtain n where n: "h c = Some n" "rep h None (root n) (plug k t)" by blast
  then have "root n = root_ptr (plug k t)" using rep_root_ptr by blast
  then show ?thesis using n by (simp add: repc_Top_iff)
qed


section \<open>The cases of the fix-up after an insertion\<close>

lemma is_red_None [simp]: "is_red s None = ret False"
  by (simp add: is_red_def)

lemma is_red_Some: "nodes s a = Some n \<Longrightarrow> is_red s (Some a) = ret (isred n)"
  by (simp add: is_red_def get_Some)

lemma is_red_root_ptr:
  assumes "rep (nodes s) par p u"
  shows "is_red s p = ret (case p of None \<Rightarrow> False | Some ua \<Rightarrow> isred_at (nodes s) ua)"
proof (cases u)
  case Leaf
  then show ?thesis using assms by simp
next
  case (Node ul ua ur)
  with assms obtain n where "p = Some ua" "nodes s ua = Some n" by (auto simp: rep_Node_iff)
  then show ?thesis by (simp add: is_red_Some isred_at_def)
qed

lemma rep_root_in: "rep h par (Some a) t \<Longrightarrow> a \<in> set (inorder t)"
  by (cases t) (auto simp: rep_Node_iff)

txt \<open>Uncle black, the node a left child of a left child: one rotation.\<close>

lemma fix_rot_LL:
  assumes c: "repc (nodes s) c k (Some g)"
    and t: "rep (nodes s) (hole_parent k) (Some g) (Node (Node (Node l x r) p rp) g u)"
    and dist: "distinct (inorder (plug k (Node (Node (Node l x r) p rp) g u)))"
    and cn: "c \<notin> set (inorder (plug k (Node (Node (Node l x r) p rp) g u)))"
    and red: "isred_at (nodes s) p"
    and unc: "\<forall>ua. root_ptr u = Some ua \<longrightarrow> \<not> isred_at (nodes s) ua"
  shows "\<exists>s'. insert_fixup s (Some x) (Some c) = ret s' \<and>
              repc (nodes s') c k (Some p) \<and>
              rep (nodes s') (hole_parent k) (Some p) (Node (Node l x r) p (Node rp g u)) \<and>
              rebalanced s s'"
proof -
  let ?h = "nodes s"
  from t obtain gn pn xn where gn: "?h g = Some gn" "left gn = Some p" "rep ?h (Some g) (right gn) u"
    and pn: "?h p = Some pn" "parent pn = Some g" "left pn = Some x" "rep ?h (Some p) (right pn) rp"
    and xn: "?h x = Some xn" "parent xn = Some p"
    by (auto simp: rep_Node_iff)
  have d: "x \<noteq> p" "x \<noteq> g" "p \<noteq> g" "x \<notin> set (inorder rp)"
    using dist by (auto simp: inorder_plug)
  have rpn: "right pn \<noteq> Some x" using pn(4) d(4) rep_root_in by fastforce
  have pred: "isred pn" using red pn by (simp add: isred_at_def)
  have ured: "is_red s (right gn) = ret False"
    using is_red_root_ptr[OF gn(3)] unc rep_root_ptr[OF gn(3)] by (auto split: option.splits)
  let ?s3 = "s\<lparr>nodes := (?h)(p \<mapsto> pn\<lparr>isred := False\<rparr>, g \<mapsto> gn\<lparr>isred := True\<rparr>)\<rparr>"
  have c3: "repc (nodes ?s3) c k (Some g)"
    using repc_recolour[OF repc_recolour[OF c pn(1), where b=False], where a=g and n=gn and b=True]
      gn(1) d by simp
  have t3: "rep (nodes ?s3) (hole_parent k) (Some g) (Node (Node (Node l x r) p rp) g u)"
    using rep_recolour[OF rep_recolour[OF t pn(1), where b=False], where a=g and n=gn and b=True]
      gn(1) d by simp
  from tree_rotate_right_zip[OF c3 t3 dist cn]
  obtain s4 where s4: "tree_rotate_right (Some g) (Some c) ?s3 = ret s4"
    "repc (nodes s4) c k (Some p)"
    "rep (nodes s4) (hole_parent k) (Some p) (Node (Node l x r) p (Node rp g u))"
    "relinked ?s3 s4"
    by blast
  from s4(3) obtain pn4 xn4 where n4: "nodes s4 p = Some pn4" "nodes s4 x = Some xn4"
    "parent xn4 = Some p"
    by (auto simp: rep_Node_iff)
  have "isred_at (nodes s4) p = isred_at (nodes ?s3) p" using relinked_isred[OF s4(4)] by simp
  then have "\<not> isred pn4" using n4 d by (simp add: isred_at_def)
  then have ex: "insert_fixup s4 (Some x) (Some c) = ret s4"
    using insert_fixup_exit_black[OF n4(2,3,1)] by simp
  have run: "insert_fixup s (Some x) (Some c) = ret s4"
    apply (subst insert_fixup.simps)
    using xn pn gn pred ured rpn d s4(1) ex
    by (simp add: get_Some put_Some is_red_Some)
  have "rebalanced s (s\<lparr>nodes := (?h)(p \<mapsto> pn\<lparr>isred := False\<rparr>)\<rparr>)"
    using rebalanced_recolour[OF pn(1)] by simp
  moreover have "rebalanced (s\<lparr>nodes := (?h)(p \<mapsto> pn\<lparr>isred := False\<rparr>)\<rparr>) ?s3"
    using rebalanced_recolour[of "s\<lparr>nodes := (?h)(p \<mapsto> pn\<lparr>isred := False\<rparr>)\<rparr>" g gn True] gn(1) d
    by simp
  ultimately have "rebalanced s s4"
    using relinked_rebalanced[OF s4(4)] rebalanced_trans by blast
  then show ?thesis using run s4 by blast
qed

txt \<open>Uncle black, the node a right child of a left child: two rotations.\<close>

lemma fix_rot_LR:
  assumes c: "repc (nodes s) c k (Some g)"
    and t: "rep (nodes s) (hole_parent k) (Some g) (Node (Node lp p (Node l x r)) g u)"
    and dist: "distinct (inorder (plug k (Node (Node lp p (Node l x r)) g u)))"
    and cn: "c \<notin> set (inorder (plug k (Node (Node lp p (Node l x r)) g u)))"
    and red: "isred_at (nodes s) p"
    and unc: "\<forall>ua. root_ptr u = Some ua \<longrightarrow> \<not> isred_at (nodes s) ua"
  shows "\<exists>s'. insert_fixup s (Some x) (Some c) = ret s' \<and>
              repc (nodes s') c k (Some x) \<and>
              rep (nodes s') (hole_parent k) (Some x) (Node (Node lp p l) x (Node r g u)) \<and>
              rebalanced s s'"
proof -
  let ?h = "nodes s"
  from t obtain gn pn xn where gn: "?h g = Some gn" "left gn = Some p" "rep ?h (Some g) (right gn) u"
    "parent gn = hole_parent k"
    and pn: "?h p = Some pn" "parent pn = Some g" "right pn = Some x"
    and tp: "rep ?h (Some g) (Some p) (Node lp p (Node l x r))"
    and xn: "?h x = Some xn" "parent xn = Some p"
    by (auto simp: rep_Node_iff)
  have d: "x \<noteq> p" "x \<noteq> g" "p \<noteq> g"
    using dist by (auto simp: inorder_plug)
  have pred: "isred pn" using red pn by (simp add: isred_at_def)
  have ured: "is_red s (right gn) = ret False"
    using is_red_root_ptr[OF gn(3)] unc rep_root_ptr[OF gn(3)] by (auto split: option.splits)
  have c1: "repc ?h c (InL k g u) (Some p)"
    using c gn by (simp add: repc_InL_iff)
  have t1: "rep ?h (hole_parent (InL k g u)) (Some p) (Node lp p (Node l x r))"
    using tp by simp
  have dist1: "distinct (inorder (plug (InL k g u) (Node lp p (Node l x r))))"
    and cn1: "c \<notin> set (inorder (plug (InL k g u) (Node lp p (Node l x r))))"
    using dist cn by simp_all
  from tree_rotate_left_zip[OF c1 t1 dist1 cn1]
  obtain s1 where s1: "tree_rotate_left (Some p) (Some c) s = ret s1"
    "repc (nodes s1) c (InL k g u) (Some x)"
    "rep (nodes s1) (Some g) (Some x) (Node (Node lp p l) x r)"
    "relinked s s1"
    by auto
  from s1(2) obtain gn1 where gn1: "nodes s1 g = Some gn1" "left gn1 = Some x"
    "parent gn1 = hole_parent k" "rep (nodes s1) (Some g) (right gn1) u" "repc (nodes s1) c k (Some g)"
    by (auto simp: repc_InL_iff)
  from s1(3) obtain xn1 pn1 where n1: "nodes s1 x = Some xn1" "nodes s1 p = Some pn1"
    "parent pn1 = Some x"
    by (auto simp: rep_Node_iff)
  have tg1: "rep (nodes s1) (hole_parent k) (Some g) (Node (Node (Node lp p l) x r) g u)"
    using gn1 s1(3) by (simp add: rep_Node_iff)
  let ?s3 = "s1\<lparr>nodes := (nodes s1)(x \<mapsto> xn1\<lparr>isred := False\<rparr>, g \<mapsto> gn1\<lparr>isred := True\<rparr>)\<rparr>"
  have c3: "repc (nodes ?s3) c k (Some g)"
    using repc_recolour[OF repc_recolour[OF gn1(5) n1(1), where b=False], where a=g and n=gn1 and b=True]
      gn1(1) d by simp
  have t3: "rep (nodes ?s3) (hole_parent k) (Some g) (Node (Node (Node lp p l) x r) g u)"
    using rep_recolour[OF rep_recolour[OF tg1 n1(1), where b=False], where a=g and n=gn1 and b=True]
      gn1(1) d by simp
  have dist3: "distinct (inorder (plug k (Node (Node (Node lp p l) x r) g u)))"
    and cn3: "c \<notin> set (inorder (plug k (Node (Node (Node lp p l) x r) g u)))"
    using dist cn by (simp_all add: inorder_plug)
  from tree_rotate_right_zip[OF c3 t3 dist3 cn3]
  obtain s4 where s4: "tree_rotate_right (Some g) (Some c) ?s3 = ret s4"
    "repc (nodes s4) c k (Some x)"
    "rep (nodes s4) (hole_parent k) (Some x) (Node (Node lp p l) x (Node r g u))"
    "relinked ?s3 s4"
    by blast
  from s4(3) obtain pn4 xn4 where n4: "nodes s4 p = Some pn4" "nodes s4 x = Some xn4"
    "parent pn4 = Some x"
    by (auto simp: rep_Node_iff)
  have "isred_at (nodes s4) x = isred_at (nodes ?s3) x" using relinked_isred[OF s4(4)] by simp
  then have "\<not> isred xn4" using n4 d by (simp add: isred_at_def)
  then have ex: "insert_fixup s4 (Some p) (Some c) = ret s4"
    using insert_fixup_exit_black[OF n4(1,3,2)] by simp
  have run: "insert_fixup s (Some x) (Some c) = ret s4"
    apply (subst insert_fixup.simps)
    using xn pn gn pred ured d s1(1) n1 gn1(1) s4(1) ex
    by (simp add: get_Some put_Some is_red_Some)
  have "rebalanced s1 (s1\<lparr>nodes := (nodes s1)(x \<mapsto> xn1\<lparr>isred := False\<rparr>)\<rparr>)"
    using rebalanced_recolour[OF n1(1)] by simp
  moreover have "rebalanced (s1\<lparr>nodes := (nodes s1)(x \<mapsto> xn1\<lparr>isred := False\<rparr>)\<rparr>) ?s3"
    using rebalanced_recolour[of "s1\<lparr>nodes := (nodes s1)(x \<mapsto> xn1\<lparr>isred := False\<rparr>)\<rparr>" g gn1 True]
      gn1(1) d
    by simp
  ultimately have "rebalanced s s4"
    using relinked_rebalanced[OF s4(4)] relinked_rebalanced[OF s1(4)] rebalanced_trans by blast
  then show ?thesis using run s4 by blast
qed

txt \<open>Uncle red, the parent a left child: recolour and continue at the grandparent.\<close>

lemma fix_recolour_L:
  assumes "nodes s x = Some xn" "parent xn = Some p" "nodes s p = Some pn" "isred pn"
    "parent pn = Some g" "nodes s g = Some gn" "left gn = Some p" "right gn = Some ua"
    "nodes s ua = Some uan" "isred uan" "p \<noteq> g" "ua \<noteq> g" "ua \<noteq> p"
  shows "insert_fixup s (Some x) (Some c) =
         insert_fixup (s\<lparr>nodes := (nodes s)(p \<mapsto> pn\<lparr>isred := False\<rparr>, ua \<mapsto> uan\<lparr>isred := False\<rparr>,
                                           g \<mapsto> gn\<lparr>isred := True\<rparr>)\<rparr>) (Some g) (Some c)"
  apply (subst insert_fixup.simps)
  using assms
  by (simp add: get_Some put_Some is_red_Some)

txt \<open>The mirror images.\<close>

lemma fix_rot_RR:
  assumes c: "repc (nodes s) c k (Some g)"
    and t: "rep (nodes s) (hole_parent k) (Some g) (Node u g (Node lp p (Node l x r)))"
    and dist: "distinct (inorder (plug k (Node u g (Node lp p (Node l x r)))))"
    and cn: "c \<notin> set (inorder (plug k (Node u g (Node lp p (Node l x r)))))"
    and red: "isred_at (nodes s) p"
    and unc: "\<forall>ua. root_ptr u = Some ua \<longrightarrow> \<not> isred_at (nodes s) ua"
  shows "\<exists>s'. insert_fixup s (Some x) (Some c) = ret s' \<and>
              repc (nodes s') c k (Some p) \<and>
              rep (nodes s') (hole_parent k) (Some p) (Node (Node u g lp) p (Node l x r)) \<and>
              rebalanced s s'"
proof -
  let ?h = "nodes s"
  from t obtain gn pn xn where gn: "?h g = Some gn" "right gn = Some p" "rep ?h (Some g) (left gn) u"
    and pn: "?h p = Some pn" "parent pn = Some g" "right pn = Some x" "rep ?h (Some p) (left pn) lp"
    and xn: "?h x = Some xn" "parent xn = Some p"
    by (auto simp: rep_Node_iff)
  have d: "x \<noteq> p" "x \<noteq> g" "p \<noteq> g" "x \<notin> set (inorder lp)" "p \<notin> set (inorder u)"
    using dist by (auto simp: inorder_plug)
  have lpn: "left pn \<noteq> Some x" using pn(4) d(4) rep_root_in by fastforce
  have lgn: "left gn \<noteq> Some p" using gn(3) d(5) rep_root_in by fastforce
  have pred: "isred pn" using red pn by (simp add: isred_at_def)
  have ured: "is_red s (left gn) = ret False"
    using is_red_root_ptr[OF gn(3)] unc rep_root_ptr[OF gn(3)] by (auto split: option.splits)
  let ?s3 = "s\<lparr>nodes := (?h)(p \<mapsto> pn\<lparr>isred := False\<rparr>, g \<mapsto> gn\<lparr>isred := True\<rparr>)\<rparr>"
  have c3: "repc (nodes ?s3) c k (Some g)"
    using repc_recolour[OF repc_recolour[OF c pn(1), where b=False], where a=g and n=gn and b=True]
      gn(1) d by simp
  have t3: "rep (nodes ?s3) (hole_parent k) (Some g) (Node u g (Node lp p (Node l x r)))"
    using rep_recolour[OF rep_recolour[OF t pn(1), where b=False], where a=g and n=gn and b=True]
      gn(1) d by simp
  from tree_rotate_left_zip[OF c3 t3 dist cn]
  obtain s4 where s4: "tree_rotate_left (Some g) (Some c) ?s3 = ret s4"
    "repc (nodes s4) c k (Some p)"
    "rep (nodes s4) (hole_parent k) (Some p) (Node (Node u g lp) p (Node l x r))"
    "relinked ?s3 s4"
    by blast
  from s4(3) obtain pn4 xn4 where n4: "nodes s4 p = Some pn4" "nodes s4 x = Some xn4"
    "parent xn4 = Some p"
    by (auto simp: rep_Node_iff)
  have "isred_at (nodes s4) p = isred_at (nodes ?s3) p" using relinked_isred[OF s4(4)] by simp
  then have "\<not> isred pn4" using n4 d by (simp add: isred_at_def)
  then have ex: "insert_fixup s4 (Some x) (Some c) = ret s4"
    using insert_fixup_exit_black[OF n4(2,3,1)] by simp
  have run: "insert_fixup s (Some x) (Some c) = ret s4"
    apply (subst insert_fixup.simps)
    using xn pn gn pred ured lpn lgn d s4(1) ex
    by (simp add: get_Some put_Some is_red_Some)
  have "rebalanced s (s\<lparr>nodes := (?h)(p \<mapsto> pn\<lparr>isred := False\<rparr>)\<rparr>)"
    using rebalanced_recolour[OF pn(1)] by simp
  moreover have "rebalanced (s\<lparr>nodes := (?h)(p \<mapsto> pn\<lparr>isred := False\<rparr>)\<rparr>) ?s3"
    using rebalanced_recolour[of "s\<lparr>nodes := (?h)(p \<mapsto> pn\<lparr>isred := False\<rparr>)\<rparr>" g gn True] gn(1) d
    by simp
  ultimately have "rebalanced s s4"
    using relinked_rebalanced[OF s4(4)] rebalanced_trans by blast
  then show ?thesis using run s4 by blast
qed

lemma fix_rot_RL:
  assumes c: "repc (nodes s) c k (Some g)"
    and t: "rep (nodes s) (hole_parent k) (Some g) (Node u g (Node (Node l x r) p rp))"
    and dist: "distinct (inorder (plug k (Node u g (Node (Node l x r) p rp))))"
    and cn: "c \<notin> set (inorder (plug k (Node u g (Node (Node l x r) p rp))))"
    and red: "isred_at (nodes s) p"
    and unc: "\<forall>ua. root_ptr u = Some ua \<longrightarrow> \<not> isred_at (nodes s) ua"
  shows "\<exists>s'. insert_fixup s (Some x) (Some c) = ret s' \<and>
              repc (nodes s') c k (Some x) \<and>
              rep (nodes s') (hole_parent k) (Some x) (Node (Node u g l) x (Node r p rp)) \<and>
              rebalanced s s'"
proof -
  let ?h = "nodes s"
  from t obtain gn pn xn where gn: "?h g = Some gn" "right gn = Some p" "rep ?h (Some g) (left gn) u"
    "parent gn = hole_parent k"
    and pn: "?h p = Some pn" "parent pn = Some g" "left pn = Some x"
    and tp: "rep ?h (Some g) (Some p) (Node (Node l x r) p rp)"
    and xn: "?h x = Some xn" "parent xn = Some p"
    by (auto simp: rep_Node_iff)
  have d: "x \<noteq> p" "x \<noteq> g" "p \<noteq> g" "p \<notin> set (inorder u)"
    using dist by (auto simp: inorder_plug)
  have lgn: "left gn \<noteq> Some p" using gn(3) d(4) rep_root_in by fastforce
  have pred: "isred pn" using red pn by (simp add: isred_at_def)
  have ured: "is_red s (left gn) = ret False"
    using is_red_root_ptr[OF gn(3)] unc rep_root_ptr[OF gn(3)] by (auto split: option.splits)
  have c1: "repc ?h c (InR u g k) (Some p)"
    using c gn by (simp add: repc_InR_iff)
  have t1: "rep ?h (hole_parent (InR u g k)) (Some p) (Node (Node l x r) p rp)"
    using tp by simp
  have dist1: "distinct (inorder (plug (InR u g k) (Node (Node l x r) p rp)))"
    and cn1: "c \<notin> set (inorder (plug (InR u g k) (Node (Node l x r) p rp)))"
    using dist cn by simp_all
  from tree_rotate_right_zip[OF c1 t1 dist1 cn1]
  obtain s1 where s1: "tree_rotate_right (Some p) (Some c) s = ret s1"
    "repc (nodes s1) c (InR u g k) (Some x)"
    "rep (nodes s1) (Some g) (Some x) (Node l x (Node r p rp))"
    "relinked s s1"
    by auto
  from s1(2) obtain gn1 where gn1: "nodes s1 g = Some gn1" "right gn1 = Some x"
    "parent gn1 = hole_parent k" "rep (nodes s1) (Some g) (left gn1) u" "repc (nodes s1) c k (Some g)"
    by (auto simp: repc_InR_iff)
  from s1(3) obtain xn1 pn1 where n1: "nodes s1 x = Some xn1" "nodes s1 p = Some pn1"
    "parent pn1 = Some x"
    by (auto simp: rep_Node_iff)
  have tg1: "rep (nodes s1) (hole_parent k) (Some g) (Node u g (Node l x (Node r p rp)))"
    using gn1 s1(3) by (simp add: rep_Node_iff)
  let ?s3 = "s1\<lparr>nodes := (nodes s1)(x \<mapsto> xn1\<lparr>isred := False\<rparr>, g \<mapsto> gn1\<lparr>isred := True\<rparr>)\<rparr>"
  have c3: "repc (nodes ?s3) c k (Some g)"
    using repc_recolour[OF repc_recolour[OF gn1(5) n1(1), where b=False], where a=g and n=gn1 and b=True]
      gn1(1) d by simp
  have t3: "rep (nodes ?s3) (hole_parent k) (Some g) (Node u g (Node l x (Node r p rp)))"
    using rep_recolour[OF rep_recolour[OF tg1 n1(1), where b=False], where a=g and n=gn1 and b=True]
      gn1(1) d by simp
  have dist3: "distinct (inorder (plug k (Node u g (Node l x (Node r p rp)))))"
    and cn3: "c \<notin> set (inorder (plug k (Node u g (Node l x (Node r p rp)))))"
    using dist cn by (simp_all add: inorder_plug)
  from tree_rotate_left_zip[OF c3 t3 dist3 cn3]
  obtain s4 where s4: "tree_rotate_left (Some g) (Some c) ?s3 = ret s4"
    "repc (nodes s4) c k (Some x)"
    "rep (nodes s4) (hole_parent k) (Some x) (Node (Node u g l) x (Node r p rp))"
    "relinked ?s3 s4"
    by blast
  from s4(3) obtain pn4 xn4 where n4: "nodes s4 p = Some pn4" "nodes s4 x = Some xn4"
    "parent pn4 = Some x"
    by (auto simp: rep_Node_iff)
  have "isred_at (nodes s4) x = isred_at (nodes ?s3) x" using relinked_isred[OF s4(4)] by simp
  then have "\<not> isred xn4" using n4 d by (simp add: isred_at_def)
  then have ex: "insert_fixup s4 (Some p) (Some c) = ret s4"
    using insert_fixup_exit_black[OF n4(1,3,2)] by simp
  have run: "insert_fixup s (Some x) (Some c) = ret s4"
    apply (subst insert_fixup.simps)
    using xn pn gn pred ured lgn d s1(1) n1 gn1(1) s4(1) ex
    by (simp add: get_Some put_Some is_red_Some)
  have "rebalanced s1 (s1\<lparr>nodes := (nodes s1)(x \<mapsto> xn1\<lparr>isred := False\<rparr>)\<rparr>)"
    using rebalanced_recolour[OF n1(1)] by simp
  moreover have "rebalanced (s1\<lparr>nodes := (nodes s1)(x \<mapsto> xn1\<lparr>isred := False\<rparr>)\<rparr>) ?s3"
    using rebalanced_recolour[of "s1\<lparr>nodes := (nodes s1)(x \<mapsto> xn1\<lparr>isred := False\<rparr>)\<rparr>" g gn1 True]
      gn1(1) d
    by simp
  ultimately have "rebalanced s s4"
    using relinked_rebalanced[OF s4(4)] relinked_rebalanced[OF s1(4)] rebalanced_trans by blast
  then show ?thesis using run s4 by blast
qed

lemma fix_recolour_R:
  assumes "nodes s x = Some xn" "parent xn = Some p" "nodes s p = Some pn" "isred pn"
    "parent pn = Some g" "nodes s g = Some gn" "left gn = Some ua" "ua \<noteq> p"
    "nodes s ua = Some uan" "isred uan" "p \<noteq> g" "ua \<noteq> g"
  shows "insert_fixup s (Some x) (Some c) =
         insert_fixup (s\<lparr>nodes := (nodes s)(p \<mapsto> pn\<lparr>isred := False\<rparr>, ua \<mapsto> uan\<lparr>isred := False\<rparr>,
                                           g \<mapsto> gn\<lparr>isred := True\<rparr>)\<rparr>) (Some g) (Some c)"
  apply (subst insert_fixup.simps)
  using assms
  by (simp add: get_Some put_Some is_red_Some)

lemma fix_recolour_step_L:
  assumes c: "repc (nodes s) c k (Some g)"
    and t: "rep (nodes s) (hole_parent k) (Some g) (Node (Node pl p pr) g (Node ul ua ur))"
    and dist: "distinct (inorder (Node (Node pl p pr) g (Node ul ua ur)))"
    and xn: "nodes s x = Some xn" "parent xn = Some p"
    and red: "isred_at (nodes s) p" "isred_at (nodes s) ua"
  shows "\<exists>s3. insert_fixup s (Some x) (Some c) = insert_fixup s3 (Some g) (Some c) \<and>
              repc (nodes s3) c k (Some g) \<and>
              rep (nodes s3) (hole_parent k) (Some g) (Node (Node pl p pr) g (Node ul ua ur)) \<and>
              rebalanced s s3 \<and>
              (\<forall>a. a \<noteq> p \<and> a \<noteq> ua \<and> a \<noteq> g \<longrightarrow> isred_at (nodes s3) a = isred_at (nodes s) a)"
proof -
  let ?h = "nodes s"
  from t obtain gn pn uan where gn: "?h g = Some gn" "left gn = Some p" "right gn = Some ua"
    and pn: "?h p = Some pn" "parent pn = Some g"
    and uan: "?h ua = Some uan"
    by (auto simp: rep_Node_iff)
  have d: "p \<noteq> g" "ua \<noteq> g" "ua \<noteq> p" using dist by auto
  have r: "isred pn" "isred uan" using red pn uan by (simp_all add: isred_at_def)
  let ?h1 = "(?h)(p \<mapsto> pn\<lparr>isred := False\<rparr>)"
  let ?h2 = "?h1(ua \<mapsto> uan\<lparr>isred := False\<rparr>)"
  let ?h3 = "?h2(g \<mapsto> gn\<lparr>isred := True\<rparr>)"
  let ?s3 = "s\<lparr>nodes := ?h3\<rparr>"
  have run: "insert_fixup s (Some x) (Some c) = insert_fixup ?s3 (Some g) (Some c)"
    using fix_recolour_L[OF xn pn(1) r(1) pn(2) gn uan r(2) d] by simp
  have h1: "?h1 ua = Some uan" "?h2 g = Some gn" using d uan gn by simp_all
  have c3: "repc ?h3 c k (Some g)"
    using repc_recolour[OF repc_recolour[OF repc_recolour[OF c pn(1)] h1(1)] h1(2)] .
  have t3: "rep ?h3 (hole_parent k) (Some g) (Node (Node pl p pr) g (Node ul ua ur))"
    using rep_recolour[OF rep_recolour[OF rep_recolour[OF t pn(1)] h1(1)] h1(2)] .
  have rb1: "rebalanced s (s\<lparr>nodes := ?h1\<rparr>)" using rebalanced_recolour[OF pn(1)] .
  have rb2: "rebalanced (s\<lparr>nodes := ?h1\<rparr>) (s\<lparr>nodes := ?h2\<rparr>)"
    using rebalanced_recolour[of "s\<lparr>nodes := ?h1\<rparr>" ua uan False] h1(1) by simp
  have rb3: "rebalanced (s\<lparr>nodes := ?h2\<rparr>) ?s3"
    using rebalanced_recolour[of "s\<lparr>nodes := ?h2\<rparr>" g gn True] h1(2) by simp
  have rb: "rebalanced s ?s3" using rb1 rb2 rb3 rebalanced_trans by blast
  have col: "\<forall>a. a \<noteq> p \<and> a \<noteq> ua \<and> a \<noteq> g \<longrightarrow> isred_at (nodes ?s3) a = isred_at ?h a"
    by (simp add: isred_at_def)
  show ?thesis
    apply (rule exI[of _ ?s3])
    using run c3 t3 rb col by simp
qed

lemma fix_recolour_step_R:
  assumes c: "repc (nodes s) c k (Some g)"
    and t: "rep (nodes s) (hole_parent k) (Some g) (Node (Node ul ua ur) g (Node pl p pr))"
    and dist: "distinct (inorder (Node (Node ul ua ur) g (Node pl p pr)))"
    and xn: "nodes s x = Some xn" "parent xn = Some p"
    and red: "isred_at (nodes s) p" "isred_at (nodes s) ua"
  shows "\<exists>s3. insert_fixup s (Some x) (Some c) = insert_fixup s3 (Some g) (Some c) \<and>
              repc (nodes s3) c k (Some g) \<and>
              rep (nodes s3) (hole_parent k) (Some g) (Node (Node ul ua ur) g (Node pl p pr)) \<and>
              rebalanced s s3 \<and>
              (\<forall>a. a \<noteq> p \<and> a \<noteq> ua \<and> a \<noteq> g \<longrightarrow> isred_at (nodes s3) a = isred_at (nodes s) a)"
proof -
  let ?h = "nodes s"
  from t obtain gn pn uan where gn: "?h g = Some gn" "left gn = Some ua" "right gn = Some p"
    and pn: "?h p = Some pn" "parent pn = Some g"
    and uan: "?h ua = Some uan"
    by (auto simp: rep_Node_iff)
  have d: "p \<noteq> g" "ua \<noteq> g" "ua \<noteq> p" using dist by auto
  have r: "isred pn" "isred uan" using red pn uan by (simp_all add: isred_at_def)
  let ?h1 = "(?h)(p \<mapsto> pn\<lparr>isred := False\<rparr>)"
  let ?h2 = "?h1(ua \<mapsto> uan\<lparr>isred := False\<rparr>)"
  let ?h3 = "?h2(g \<mapsto> gn\<lparr>isred := True\<rparr>)"
  let ?s3 = "s\<lparr>nodes := ?h3\<rparr>"
  have run: "insert_fixup s (Some x) (Some c) = insert_fixup ?s3 (Some g) (Some c)"
    using fix_recolour_R[OF xn pn(1) r(1) pn(2) gn(1,2) d(3) uan r(2) d(1,2)] by simp
  have h1: "?h1 ua = Some uan" "?h2 g = Some gn" using d uan gn by simp_all
  have c3: "repc ?h3 c k (Some g)"
    using repc_recolour[OF repc_recolour[OF repc_recolour[OF c pn(1)] h1(1)] h1(2)] .
  have t3: "rep ?h3 (hole_parent k) (Some g) (Node (Node ul ua ur) g (Node pl p pr))"
    using rep_recolour[OF rep_recolour[OF rep_recolour[OF t pn(1)] h1(1)] h1(2)] .
  have rb1: "rebalanced s (s\<lparr>nodes := ?h1\<rparr>)" using rebalanced_recolour[OF pn(1)] .
  have rb2: "rebalanced (s\<lparr>nodes := ?h1\<rparr>) (s\<lparr>nodes := ?h2\<rparr>)"
    using rebalanced_recolour[of "s\<lparr>nodes := ?h1\<rparr>" ua uan False] h1(1) by simp
  have rb3: "rebalanced (s\<lparr>nodes := ?h2\<rparr>) ?s3"
    using rebalanced_recolour[of "s\<lparr>nodes := ?h2\<rparr>" g gn True] h1(2) by simp
  have rb: "rebalanced s ?s3" using rb1 rb2 rb3 rebalanced_trans by blast
  have col: "\<forall>a. a \<noteq> p \<and> a \<noteq> ua \<and> a \<noteq> g \<longrightarrow> isred_at (nodes ?s3) a = isred_at ?h a"
    by (simp add: isred_at_def)
  show ?thesis
    apply (rule exI[of _ ?s3])
    using run c3 t3 rb col by simp
qed


section \<open>The fix-up loop\<close>

lemma zip_up_L:
  "repc h c (InL k p rp) (Some x) \<Longrightarrow> rep h (Some p) (Some x) tx \<Longrightarrow>
   repc h c k (Some p) \<and> rep h (hole_parent k) (Some p) (Node tx p rp)"
  by (auto simp: repc_InL_iff rep_Node_iff)

lemma zip_up_R:
  "repc h c (InR lp p k) (Some x) \<Longrightarrow> rep h (Some p) (Some x) tx \<Longrightarrow>
   repc h c k (Some p) \<and> rep h (hole_parent k) (Some p) (Node lp p tx)"
  by (auto simp: repc_InR_iff rep_Node_iff)

lemma ctx_top_InL_Some: "ctx_top k = Some a \<Longrightarrow> ctx_top (InL k p r) = Some a"
  by simp

lemma ctx_top_InR_Some: "ctx_top k = Some a \<Longrightarrow> ctx_top (InR l p k) = Some a"
  by simp

txt \<open>
  The loop of \<^verbatim>\<open>tree_insert_item\<close> returns, with the same members in the same order.
\<close>

lemma insert_fixup_zip:
  assumes "repc (nodes s) c k (Some x)"
    and "rep (nodes s) (hole_parent k) (Some x) tx"
    and "root_ptr tx = Some x"
    and "distinct (inorder (plug k tx))"
    and "c \<notin> set (inorder (plug k tx))"
    and "\<forall>a. ctx_top k = Some a \<longrightarrow> \<not> isred_at (nodes s) a"
  shows "\<exists>s' T. insert_fixup s (Some x) (Some c) = ret s' \<and>
                repc (nodes s') c Top (root_ptr T) \<and> rep (nodes s') None (root_ptr T) T \<and>
                inorder T = inorder (plug k tx) \<and> rebalanced s s'"
  using assms
proof (induction "size k" arbitrary: k x tx s rule: less_induct)
  case less
  note c = less.prems(1) and t = less.prems(2) and rx = less.prems(3) and dist = less.prems(4)
    and cn = less.prems(5) and top = less.prems(6)
  from t rx obtain xn where xn: "nodes s x = Some xn" "parent xn = hole_parent k"
    by (cases tx) (auto simp: rep_Node_iff)
  have fin: "insert_fixup s (Some x) (Some c) = ret s \<Longrightarrow> ?case"
    using whole_tree[OF c t] by (intro exI[of _ s] exI[of _ "plug k tx"]) simp
  txt \<open>after the rotations the subtree \<open>t'\<close> hangs where the grandparent was\<close>
  have rotated: "?case"
    if "insert_fixup s (Some x) (Some c) = ret s'" "repc (nodes s') c k2 p'"
      "rep (nodes s') (hole_parent k2) p' t'" "rebalanced s s'"
      "inorder (plug k2 t') = inorder (plug k tx)" for s' k2 p' t'
    using whole_tree[OF that(2,3)] that(1,4,5)
    by (intro exI[of _ s'] exI[of _ "plug k2 t'"]) simp
  txt \<open>after a recolouring the loop continues two levels up\<close>
  have recoloured: "?case"
    if "insert_fixup s (Some x) (Some c) = insert_fixup s3 (Some g) (Some c)"
      "repc (nodes s3) c k2 (Some g)" "rep (nodes s3) (hole_parent k2) (Some g) tg"
      "root_ptr tg = Some g" "rebalanced s s3" "size k2 < size k" "plug k2 tg = plug k tx"
      "\<forall>a. ctx_top k2 = Some a \<longrightarrow> \<not> isred_at (nodes s3) a" for s3 g k2 tg
  proof -
    from less.hyps[OF that(6) that(2,3,4) _ _ that(8)] dist cn that(7)
    obtain s' T where "insert_fixup s3 (Some g) (Some c) = ret s'"
      "repc (nodes s') c Top (root_ptr T)" "rep (nodes s') None (root_ptr T) T"
      "inorder T = inorder (plug k2 tg)" "rebalanced s3 s'"
      by auto
    then show ?thesis using that(1,5,7) rebalanced_trans by (intro exI[of _ s'] exI[of _ T]) auto
  qed
  show ?case
  proof (cases k)
    case Top
    then show ?thesis using fin insert_fixup_exit_root[OF xn(1)] xn(2) by simp
  next
    case kL: (InL k1 p rp)
    from c kL obtain pn where pn: "nodes s p = Some pn" "left pn = Some x"
      by (auto simp: repc_InL_iff)
    have up: "repc (nodes s) c k1 (Some p)" "rep (nodes s) (hole_parent k1) (Some p) (Node tx p rp)"
      using zip_up_L[of "nodes s" c k1 p rp x tx] c t kL by simp_all
    obtain l r where tx: "tx = Node l x r" using rx by (cases tx) auto
    show ?thesis
    proof (cases "isred pn")
      case False
      then show ?thesis using fin insert_fixup_exit_black[OF xn(1) _ pn(1)] xn(2) kL by simp
    next
      case True
      then have pred: "isred_at (nodes s) p" using pn by (simp add: isred_at_def)
      show ?thesis
      proof (cases k1)
        case Top
        then show ?thesis using top kL pred by simp
      next
        case gL: (InL k2 g u)
        have up2: "repc (nodes s) c k2 (Some g)"
          "rep (nodes s) (hole_parent k2) (Some g) (Node (Node tx p rp) g u)"
          using zip_up_L[of "nodes s" c k2 g u p "Node tx p rp"] up gL by simp_all
        have pl: "plug k2 (Node (Node tx p rp) g u) = plug k tx" using kL gL by simp
        show ?thesis
        proof (cases "\<exists>ua. root_ptr u = Some ua \<and> isred_at (nodes s) ua")
          case True
          then obtain ul ua ur where u: "u = Node ul ua ur" "isred_at (nodes s) ua"
            by (cases u) auto
          have d3: "distinct (inorder (Node (Node tx p rp) g (Node ul ua ur)))"
            using dist pl[symmetric] u by (auto simp: inorder_plug)
          from fix_recolour_step_L[OF up2(1) up2(2)[unfolded u] d3 xn(1) _ pred u(2)] xn(2) kL
          obtain s3 where s3: "insert_fixup s (Some x) (Some c) = insert_fixup s3 (Some g) (Some c)"
            "repc (nodes s3) c k2 (Some g)"
            "rep (nodes s3) (hole_parent k2) (Some g) (Node (Node tx p rp) g (Node ul ua ur))"
            "rebalanced s s3"
            "\<forall>a. a \<noteq> p \<and> a \<noteq> ua \<and> a \<noteq> g \<longrightarrow> isred_at (nodes s3) a = isred_at (nodes s) a"
            by auto
          have "\<forall>a. ctx_top k2 = Some a \<longrightarrow> \<not> isred_at (nodes s3) a"
          proof (intro allI impI)
            fix a assume a: "ctx_top k2 = Some a"
            then have "a \<in> cset k2" by (rule ctx_top_cset)
            then have "a \<noteq> p \<and> a \<noteq> ua \<and> a \<noteq> g"
              using dist pl[symmetric] u by (auto simp: inorder_plug cset_def)
            moreover have "\<not> isred_at (nodes s) a" using top a kL gL by simp
            ultimately show "\<not> isred_at (nodes s3) a" using s3(5) by simp
          qed
          then show ?thesis
            using recoloured[OF s3(1,2,3) _ s3(4)] kL gL pl u by simp
        next
          case False
          then have unc: "\<forall>ua. root_ptr u = Some ua \<longrightarrow> \<not> isred_at (nodes s) ua" by simp
          from fix_rot_LL[OF up2(1) up2(2)[unfolded tx] _ _ pred unc] dist cn pl tx
          obtain s' where "insert_fixup s (Some x) (Some c) = ret s'"
            "repc (nodes s') c k2 (Some p)"
            "rep (nodes s') (hole_parent k2) (Some p) (Node (Node l x r) p (Node rp g u))"
            "rebalanced s s'"
            by auto
          then show ?thesis
            using rotated[of s' k2 "Some p" "Node (Node l x r) p (Node rp g u)"] kL gL tx
            by (simp add: inorder_plug)
        qed
      next
        case gR: (InR u g k2)
        have up2: "repc (nodes s) c k2 (Some g)"
          "rep (nodes s) (hole_parent k2) (Some g) (Node u g (Node tx p rp))"
          using zip_up_R[of "nodes s" c u g k2 p "Node tx p rp"] up gR by simp_all
        have pl: "plug k2 (Node u g (Node tx p rp)) = plug k tx" using kL gR by simp
        show ?thesis
        proof (cases "\<exists>ua. root_ptr u = Some ua \<and> isred_at (nodes s) ua")
          case True
          then obtain ul ua ur where u: "u = Node ul ua ur" "isred_at (nodes s) ua"
            by (cases u) auto
          have d3: "distinct (inorder (Node (Node ul ua ur) g (Node tx p rp)))"
            using dist pl[symmetric] u by (auto simp: inorder_plug)
          from fix_recolour_step_R[OF up2(1) up2(2)[unfolded u] d3 xn(1) _ pred u(2)] xn(2) kL
          obtain s3 where s3: "insert_fixup s (Some x) (Some c) = insert_fixup s3 (Some g) (Some c)"
            "repc (nodes s3) c k2 (Some g)"
            "rep (nodes s3) (hole_parent k2) (Some g) (Node (Node ul ua ur) g (Node tx p rp))"
            "rebalanced s s3"
            "\<forall>a. a \<noteq> p \<and> a \<noteq> ua \<and> a \<noteq> g \<longrightarrow> isred_at (nodes s3) a = isred_at (nodes s) a"
            by auto
          have "\<forall>a. ctx_top k2 = Some a \<longrightarrow> \<not> isred_at (nodes s3) a"
          proof (intro allI impI)
            fix a assume a: "ctx_top k2 = Some a"
            then have "a \<in> cset k2" by (rule ctx_top_cset)
            then have "a \<noteq> p \<and> a \<noteq> ua \<and> a \<noteq> g"
              using dist pl[symmetric] u by (auto simp: inorder_plug cset_def)
            moreover have "\<not> isred_at (nodes s) a" using top a kL gR by simp
            ultimately show "\<not> isred_at (nodes s3) a" using s3(5) by simp
          qed
          then show ?thesis
            using recoloured[OF s3(1,2,3) _ s3(4)] kL gR pl u by simp
        next
          case False
          then have unc: "\<forall>ua. root_ptr u = Some ua \<longrightarrow> \<not> isred_at (nodes s) ua" by simp
          from fix_rot_RL[OF up2(1) up2(2)[unfolded tx] _ _ pred unc] dist cn pl tx
          obtain s' where "insert_fixup s (Some x) (Some c) = ret s'"
            "repc (nodes s') c k2 (Some x)"
            "rep (nodes s') (hole_parent k2) (Some x) (Node (Node u g l) x (Node r p rp))"
            "rebalanced s s'"
            by auto
          then show ?thesis
            using rotated[of s' k2 "Some x" "Node (Node u g l) x (Node r p rp)"] kL gR tx
            by (simp add: inorder_plug)
        qed
      qed
    qed
  next
    case kR: (InR lp p k1)
    from c kR obtain pn where pn: "nodes s p = Some pn" "right pn = Some x"
      by (auto simp: repc_InR_iff)
    have up: "repc (nodes s) c k1 (Some p)" "rep (nodes s) (hole_parent k1) (Some p) (Node lp p tx)"
      using zip_up_R[of "nodes s" c lp p k1 x tx] c t kR by simp_all
    obtain l r where tx: "tx = Node l x r" using rx by (cases tx) auto
    show ?thesis
    proof (cases "isred pn")
      case False
      then show ?thesis using fin insert_fixup_exit_black[OF xn(1) _ pn(1)] xn(2) kR by simp
    next
      case True
      then have pred: "isred_at (nodes s) p" using pn by (simp add: isred_at_def)
      show ?thesis
      proof (cases k1)
        case Top
        then show ?thesis using top kR pred by simp
      next
        case gL: (InL k2 g u)
        have up2: "repc (nodes s) c k2 (Some g)"
          "rep (nodes s) (hole_parent k2) (Some g) (Node (Node lp p tx) g u)"
          using zip_up_L[of "nodes s" c k2 g u p "Node lp p tx"] up gL by simp_all
        have pl: "plug k2 (Node (Node lp p tx) g u) = plug k tx" using kR gL by simp
        show ?thesis
        proof (cases "\<exists>ua. root_ptr u = Some ua \<and> isred_at (nodes s) ua")
          case True
          then obtain ul ua ur where u: "u = Node ul ua ur" "isred_at (nodes s) ua"
            by (cases u) auto
          have d3: "distinct (inorder (Node (Node lp p tx) g (Node ul ua ur)))"
            using dist pl[symmetric] u by (auto simp: inorder_plug)
          from fix_recolour_step_L[OF up2(1) up2(2)[unfolded u] d3 xn(1) _ pred u(2)] xn(2) kR
          obtain s3 where s3: "insert_fixup s (Some x) (Some c) = insert_fixup s3 (Some g) (Some c)"
            "repc (nodes s3) c k2 (Some g)"
            "rep (nodes s3) (hole_parent k2) (Some g) (Node (Node lp p tx) g (Node ul ua ur))"
            "rebalanced s s3"
            "\<forall>a. a \<noteq> p \<and> a \<noteq> ua \<and> a \<noteq> g \<longrightarrow> isred_at (nodes s3) a = isred_at (nodes s) a"
            by auto
          have "\<forall>a. ctx_top k2 = Some a \<longrightarrow> \<not> isred_at (nodes s3) a"
          proof (intro allI impI)
            fix a assume a: "ctx_top k2 = Some a"
            then have "a \<in> cset k2" by (rule ctx_top_cset)
            then have "a \<noteq> p \<and> a \<noteq> ua \<and> a \<noteq> g"
              using dist pl[symmetric] u by (auto simp: inorder_plug cset_def)
            moreover have "\<not> isred_at (nodes s) a" using top a kR gL by simp
            ultimately show "\<not> isred_at (nodes s3) a" using s3(5) by simp
          qed
          then show ?thesis
            using recoloured[OF s3(1,2,3) _ s3(4)] kR gL pl u by simp
        next
          case False
          then have unc: "\<forall>ua. root_ptr u = Some ua \<longrightarrow> \<not> isred_at (nodes s) ua" by simp
          from fix_rot_LR[OF up2(1) up2(2)[unfolded tx] _ _ pred unc] dist cn pl tx
          obtain s' where "insert_fixup s (Some x) (Some c) = ret s'"
            "repc (nodes s') c k2 (Some x)"
            "rep (nodes s') (hole_parent k2) (Some x) (Node (Node lp p l) x (Node r g u))"
            "rebalanced s s'"
            by auto
          then show ?thesis
            using rotated[of s' k2 "Some x" "Node (Node lp p l) x (Node r g u)"] kR gL tx
            by (simp add: inorder_plug)
        qed
      next
        case gR: (InR u g k2)
        have up2: "repc (nodes s) c k2 (Some g)"
          "rep (nodes s) (hole_parent k2) (Some g) (Node u g (Node lp p tx))"
          using zip_up_R[of "nodes s" c u g k2 p "Node lp p tx"] up gR by simp_all
        have pl: "plug k2 (Node u g (Node lp p tx)) = plug k tx" using kR gR by simp
        show ?thesis
        proof (cases "\<exists>ua. root_ptr u = Some ua \<and> isred_at (nodes s) ua")
          case True
          then obtain ul ua ur where u: "u = Node ul ua ur" "isred_at (nodes s) ua"
            by (cases u) auto
          have d3: "distinct (inorder (Node (Node ul ua ur) g (Node lp p tx)))"
            using dist pl[symmetric] u by (auto simp: inorder_plug)
          from fix_recolour_step_R[OF up2(1) up2(2)[unfolded u] d3 xn(1) _ pred u(2)] xn(2) kR
          obtain s3 where s3: "insert_fixup s (Some x) (Some c) = insert_fixup s3 (Some g) (Some c)"
            "repc (nodes s3) c k2 (Some g)"
            "rep (nodes s3) (hole_parent k2) (Some g) (Node (Node ul ua ur) g (Node lp p tx))"
            "rebalanced s s3"
            "\<forall>a. a \<noteq> p \<and> a \<noteq> ua \<and> a \<noteq> g \<longrightarrow> isred_at (nodes s3) a = isred_at (nodes s) a"
            by auto
          have "\<forall>a. ctx_top k2 = Some a \<longrightarrow> \<not> isred_at (nodes s3) a"
          proof (intro allI impI)
            fix a assume a: "ctx_top k2 = Some a"
            then have "a \<in> cset k2" by (rule ctx_top_cset)
            then have "a \<noteq> p \<and> a \<noteq> ua \<and> a \<noteq> g"
              using dist pl[symmetric] u by (auto simp: inorder_plug cset_def)
            moreover have "\<not> isred_at (nodes s) a" using top a kR gR by simp
            ultimately show "\<not> isred_at (nodes s3) a" using s3(5) by simp
          qed
          then show ?thesis
            using recoloured[OF s3(1,2,3) _ s3(4)] kR gR pl u by simp
        next
          case False
          then have unc: "\<forall>ua. root_ptr u = Some ua \<longrightarrow> \<not> isred_at (nodes s) ua" by simp
          from fix_rot_RR[OF up2(1) up2(2)[unfolded tx] _ _ pred unc] dist cn pl tx
          obtain s' where "insert_fixup s (Some x) (Some c) = ret s'"
            "repc (nodes s') c k2 (Some p)"
            "rep (nodes s') (hole_parent k2) (Some p) (Node (Node u g lp) p (Node l x r))"
            "rebalanced s s'"
            by auto
          then show ?thesis
            using rotated[of s' k2 "Some p" "Node (Node u g lp) p (Node l x r)"] kR gR tx
            by (simp add: inorder_plug)
        qed
      qed
    qed
  qed
qed


section \<open>The invariant\<close>

lemma restructured_refl [simp]: "restructured s s"
  unfolding restructured_def
  by (intro exI[of _ "nodes s"]) (simp add: option.rel_refl prel_def)

lemma restructured_trans: "restructured s s1 \<Longrightarrow> restructured s1 s2 \<Longrightarrow> restructured s s2"
proof -
  assume a: "restructured s s1" and b: "restructured s1 s2"
  from a obtain h1 where h1: "s1 = s\<lparr>nodes := h1\<rparr>" "\<forall>x. rel_option prel (nodes s x) (h1 x)"
    by (auto simp: restructured_def)
  from b obtain h2 where h2: "s2 = s1\<lparr>nodes := h2\<rparr>" "\<forall>x. rel_option prel (nodes s1 x) (h2 x)"
    by (auto simp: restructured_def)
  have "\<And>x. rel_option prel (nodes s x) (h2 x)"
  proof -
    fix x
    have "rel_option prel (nodes s x) (h1 x)" "rel_option prel (h1 x) (h2 x)"
      using h1 h2 by auto
    then show "rel_option prel (nodes s x) (h2 x)"
      by (cases "nodes s x"; cases "h1 x"; cases "h2 x") (auto simp: prel_def)
  qed
  then show ?thesis using h1 h2 by (auto simp: restructured_def)
qed

lemma rebalanced_restructured: "rebalanced s s' \<Longrightarrow> restructured s s'"
proof -
  assume "rebalanced s s'"
  then obtain h' where h: "s' = s\<lparr>nodes := h'\<rparr>" "\<forall>x. rel_option crel (nodes s x) (h' x)"
    by (auto simp: rebalanced_def)
  have "\<And>x. rel_option prel (nodes s x) (h' x)"
  proof -
    fix x
    have "rel_option crel (nodes s x) (h' x)" using h by simp
    then show "rel_option prel (nodes s x) (h' x)"
      by (cases "nodes s x"; cases "h' x") (auto simp: crel_iff prel_def)
  qed
  then show ?thesis using h unfolding restructured_def by blast
qed

lemma restructured_nodes:
  assumes "restructured s s'" and "nodes s a = Some n"
  shows "\<exists>n'. nodes s' a = Some n' \<and> prel n n'"
proof -
  from assms(1) obtain h' where h0: "s' = s\<lparr>nodes := h'\<rparr>"
    "\<forall>x. rel_option prel (nodes s x) (h' x)"
    unfolding restructured_def by blast
  note h = h0(1) h0(2)[rule_format]
  from h(2)[of a] assms(2) obtain n' where "h' a = Some n'" "prel n n'"
    by (cases "h' a") auto
  then show ?thesis using h(1) by simp
qed

lemma restructured_nodes_rev:
  assumes "restructured s s'" and "nodes s' a = Some n'"
  shows "\<exists>n. nodes s a = Some n \<and> prel n n'"
proof -
  from assms(1) obtain h' where h0: "s' = s\<lparr>nodes := h'\<rparr>"
    "\<forall>x. rel_option prel (nodes s x) (h' x)"
    unfolding restructured_def by blast
  note h = h0(1) h0(2)[rule_format]
  have "h' a = Some n'" using h(1) assms(2) by simp
  with h(2)[of a] show ?thesis by (cases "nodes s a") auto
qed

lemma restructured_bufs: "restructured s s' \<Longrightarrow> bufs s' = bufs s"
  by (auto simp: restructured_def)

lemma restructured_rank:
  assumes r: "restructured s s'"
  shows "rank_of s' ob a = rank_of s ob a"
proof (cases "nodes s a")
  case None
  then have "nodes s' a = None"
    using restructured_nodes_rev[OF r, of a] by (cases "nodes s' a") auto
  then show ?thesis using None by (simp add: rank_of_def)
next
  case (Some n)
  then obtain n' where "nodes s' a = Some n'" "prel n n'"
    using restructured_nodes[OF r] by blast
  then show ?thesis using Some
    by (auto simp: rank_of_def node_rank_def prel_def restructured_bufs[OF r] split: option.splits)
qed

lemma restructured_keyed:
  assumes r: "restructured s s'" and k: "keyed s ob a"
  shows "keyed s' ob a"
proof -
  from k obtain n where n: "nodes s a = Some n"
    "ob \<longrightarrow> (\<exists>b k. string n = Some b \<and> bufs s b = Some k)"
    by (auto simp: keyed_def)
  then obtain n' where "nodes s' a = Some n'" "prel n n'"
    using restructured_nodes[OF r] by blast
  then show ?thesis using n by (auto simp: keyed_def prel_def restructured_bufs[OF r])
qed

txt \<open>The invariant of a container's tree.\<close>

lemma sorted_wrt_map_distinct:
  "sorted_wrt (<) (map (f :: nat \<Rightarrow> int list) xs) \<Longrightarrow> distinct xs"
  by (induction xs) auto

lemma tree_inv_distinct: "tree_inv s c t \<Longrightarrow> distinct (inorder t)"
  unfolding tree_inv_def using sorted_wrt_map_distinct by blast

lemma tree_lookup_inv:
  assumes "tree_inv s c t" and "nodes s c = Some cn"
  shows "tree_lookup s key idx (Some c) =
           (case descend (rank_of s (is_object cn)) (prank (is_object cn) key idx) Top t of
              (k', t') \<Rightarrow> ret (root_ptr t', hole_parent k', hole_isleft k'))"
proof -
  from assms have cn: "is_container cn" "rep (nodes s) None (root cn) t"
    "\<forall>a\<in>set (inorder t). keyed s (is_object cn) a"
    by (auto simp: tree_inv_def)
  show ?thesis
    using tree_lookup_loop_descend[OF assms(2), of Top "root cn" t key idx] cn assms(2)
    by (simp add: tree_lookup_def get_Some)
qed


section \<open>Linking a new node\<close>

lemma prel_refl [simp]: "prel n n"
  by (simp add: prel_def)

lemma restructuredI:
  "(\<And>a. rel_option prel (nodes s a) (h' a)) \<Longrightarrow> restructured s (s\<lparr>nodes := h'\<rparr>)"
  unfolding restructured_def by blast

lemma insert_link_zip:
  assumes cn: "nodes s c = Some cn" and xn: "nodes s x = Some xn" and ne: "x \<noteq> c"
    and c: "repc (nodes s) c k None"
    and dist: "distinct (cbefore k @ cafter k)" and xk: "x \<notin> cset k" and ck: "c \<notin> cset k"
  shows "\<exists>s7. insert_link (Some x) (Some c) (hole_parent k) (hole_isleft k) s = ret s7 \<and>
          repc (nodes s7) c k (Some x) \<and>
          rep (nodes s7) (hole_parent k) (Some x) (Node Leaf x Leaf) \<and>
          restructured s s7 \<and>
          (\<forall>a. a \<noteq> x \<longrightarrow> isred_at (nodes s7) a = isred_at (nodes s) a) \<and>
          (\<exists>cn7. nodes s7 c = Some cn7 \<and>
             first cn7 = (if k = Top \<or> (hole_isleft k \<and> hole_parent k = first cn) then Some x
                          else first cn))"
proof -
  let ?h = "nodes s"
  define xn' where "xn' = xn\<lparr>left := None, right := None, isred := True, parent := hole_parent k\<rparr>"
  define cn' where "cn' =
    (case k of Top \<Rightarrow> cn\<lparr>root := Some x, first := Some x, last' := Some x\<rparr>
     | _ \<Rightarrow> if hole_isleft k \<and> hole_parent k = first cn then cn\<lparr>first := Some x\<rparr>
            else if hole_parent k = last' cn then cn\<lparr>last' := Some x\<rparr> else cn)"
  define h5 where "h5 = (?h)(x \<mapsto> xn', c \<mapsto> cn')"
  define h7 where "h7 =
    (case k of Top \<Rightarrow> h5
     | InL k1 a r \<Rightarrow> h5(a \<mapsto> (the (?h a))\<lparr>left := Some x\<rparr>)
     | InR l a k1 \<Rightarrow> h5(a \<mapsto> (the (?h a))\<lparr>right := Some x\<rparr>))"
  have c5: "h5 c = Some cn'" and x5: "h5 x = Some xn'"
    using ne by (simp_all add: h5_def)
  have triv: "(?h)(x \<mapsto> xn', c \<mapsto> cn) = (?h)(x \<mapsto> xn')"
    using cn ne by (auto simp: fun_eq_iff)
  have run: "insert_link (Some x) (Some c) (hole_parent k) (hole_isleft k) s = ret (s\<lparr>nodes := h7\<rparr>)"
  proof (cases k)
    case Top
    then show ?thesis using cn xn ne
      by (simp add: insert_link_def put_Some get_Some set_parent_def h7_def h5_def cn'_def xn'_def)
  next
    case (InL k1 a r)
    with c obtain an where an: "?h a = Some an" by (auto simp: repc_InL_iff)
    have ac: "a \<noteq> x" "a \<noteq> c" using xk ck InL by auto
    consider (f) "first cn = Some a" | (l) "first cn \<noteq> Some a" "last' cn = Some a"
      | (n) "first cn \<noteq> Some a" "last' cn \<noteq> Some a" by blast
    then show ?thesis
    proof cases
      case f
      then show ?thesis using cn xn ne InL an triv ac
        by (simp add: insert_link_def put_Some get_Some set_parent_def set_child_def h7_def h5_def
            cn'_def xn'_def)
    next
      case l
      then show ?thesis using cn xn ne InL an triv ac
        by (simp add: insert_link_def put_Some get_Some set_parent_def set_child_def h7_def h5_def
            cn'_def xn'_def)
    next
      case n
      then have "Some a \<noteq> first cn" "Some a \<noteq> last' cn" by auto
      then show ?thesis using cn xn ne InL an triv ac
        by (simp add: insert_link_def put_Some get_Some set_parent_def set_child_def h7_def h5_def
            cn'_def xn'_def)
    qed
  next
    case (InR l a k1)
    with c obtain an where an: "?h a = Some an" by (auto simp: repc_InR_iff)
    have ac: "a \<noteq> x" "a \<noteq> c" using xk ck InR by auto
    consider (l) "last' cn = Some a" | (n) "last' cn \<noteq> Some a" by blast
    then show ?thesis
    proof cases
      case l
      then show ?thesis using cn xn ne InR an triv ac
        by (simp add: insert_link_def put_Some get_Some set_parent_def set_child_def h7_def h5_def
            cn'_def xn'_def)
    next
      case n
      then have "Some a \<noteq> last' cn" by auto
      then show ?thesis using cn xn ne InR an triv ac
        by (simp add: insert_link_def put_Some get_Some set_parent_def set_child_def h7_def h5_def
            cn'_def xn'_def)
    qed
  qed
  have lc: "root cn' = (case k of Top \<Rightarrow> Some x | _ \<Rightarrow> root cn)" "prel cn cn'"
    "left cn' = left cn" "right cn' = right cn" "parent cn' = parent cn" "isred cn' = isred cn"
    by (auto simp: cn'_def prel_def split: ctx.splits)
  have unt: "\<And>y. y \<noteq> x \<Longrightarrow> y \<noteq> c \<Longrightarrow> hole_parent k \<noteq> Some y \<Longrightarrow> h7 y = ?h y"
    by (auto simp: h7_def h5_def split: ctx.splits)
  have h7x: "h7 x = Some xn'"
    using xk ne by (auto simp: h7_def h5_def split: ctx.splits)
  have h7c: "h7 c = Some cn'"
    using ck ne by (auto simp: h7_def h5_def split: ctx.splits)
  have lnk: "\<And>y. y \<noteq> x \<Longrightarrow> hole_parent k \<noteq> Some y \<Longrightarrow> links (h7 y) = links (?h y)"
  proof -
    fix y assume "y \<noteq> x" "hole_parent k \<noteq> Some y"
    then show "links (h7 y) = links (?h y)"
      using unt[of y] h7c cn lc by (cases "y = c") (auto simp: links_def)
  qed
  have rep_x: "rep h7 (hole_parent k) (Some x) (Node Leaf x Leaf)"
    using h7x by (simp add: rep_Node_iff xn'_def)
  have repc_x: "repc h7 c k (Some x)"
  proof (cases k)
    case Top
    then show ?thesis using h7c lc by (simp add: repc_Top_iff)
  next
    case (InL k1 a r)
    with c obtain an where an: "?h a = Some an" "parent an = hole_parent k1"
      "rep ?h (Some a) (right an) r" "repc ?h c k1 (Some a)"
      by (auto simp: repc_InL_iff)
    have a: "a \<noteq> x" "a \<noteq> c" "a \<notin> set (inorder r)" "a \<notin> cset k1"
      "x \<notin> set (inorder r)" "x \<notin> cset k1"
      using xk ck InL dist by (auto simp: cset_def)
    have h7a: "h7 a = Some (an\<lparr>left := Some x\<rparr>)"
      using an InL by (simp add: h7_def)
    have "rep h7 (Some a) (right an) r"
      by (rule rep_frame[OF an(3)]) (use a InL in \<open>auto intro!: lnk\<close>)
    moreover have "repc h7 c k1 (Some a)"
      by (rule repc_frame[OF an(4)]) (use a InL h7c cn lc in \<open>auto intro!: lnk\<close>)
    ultimately show ?thesis using InL h7a an by (simp add: repc_InL_iff)
  next
    case (InR l a k1)
    with c obtain an where an: "?h a = Some an" "parent an = hole_parent k1"
      "rep ?h (Some a) (left an) l" "repc ?h c k1 (Some a)"
      by (auto simp: repc_InR_iff)
    have a: "a \<noteq> x" "a \<noteq> c" "a \<notin> set (inorder l)" "a \<notin> cset k1"
      "x \<notin> set (inorder l)" "x \<notin> cset k1"
      using xk ck InR dist by (auto simp: cset_def)
    have h7a: "h7 a = Some (an\<lparr>right := Some x\<rparr>)"
      using an InR by (simp add: h7_def)
    have "rep h7 (Some a) (left an) l"
      by (rule rep_frame[OF an(3)]) (use a InR in \<open>auto intro!: lnk\<close>)
    moreover have "repc h7 c k1 (Some a)"
      by (rule repc_frame[OF an(4)]) (use a InR h7c cn lc in \<open>auto intro!: lnk\<close>)
    ultimately show ?thesis using InR h7a an by (simp add: repc_InR_iff)
  qed
  have pr: "\<And>y. rel_option prel (?h y) (h7 y)"
  proof -
    fix y
    consider "y = x" | "y = c" | "hole_parent k = Some y" "y \<noteq> x" "y \<noteq> c"
      | "y \<noteq> x" "y \<noteq> c" "hole_parent k \<noteq> Some y" by blast
    then show "rel_option prel (?h y) (h7 y)"
    proof cases
      case 1
      then show ?thesis using h7x xn by (simp add: xn'_def prel_def)
    next
      case 2
      then show ?thesis using h7c cn lc by simp
    next
      case 3
      then show ?thesis
      proof (cases k)
        case Top
        then show ?thesis using 3 by simp
      next
        case (InL k1 a r)
        with c obtain an where "?h a = Some an" by (auto simp: repc_InL_iff)
        then show ?thesis using 3 InL by (simp add: h7_def prel_def)
      next
        case (InR l a k1)
        with c obtain an where "?h a = Some an" by (auto simp: repc_InR_iff)
        then show ?thesis using 3 InR by (simp add: h7_def prel_def)
      qed
    next
      case 4
      then show ?thesis using unt[of y] by (simp add: option.rel_refl)
    qed
  qed
  have col: "\<forall>y. y \<noteq> x \<longrightarrow> isred_at h7 y = isred_at ?h y"
  proof (intro allI impI)
    fix y assume y: "y \<noteq> x"
    consider "y = c" | "hole_parent k = Some y" "y \<noteq> c" | "y \<noteq> c" "hole_parent k \<noteq> Some y"
      by blast
    then show "isred_at h7 y = isred_at ?h y"
    proof cases
      case 1
      then show ?thesis using h7c cn lc by (simp add: isred_at_def)
    next
      case 2
      then show ?thesis
      proof (cases k)
        case Top
        then show ?thesis using 2 by simp
      next
        case (InL k1 a r)
        with c obtain an where "?h a = Some an" by (auto simp: repc_InL_iff)
        then show ?thesis using 2 InL by (simp add: h7_def isred_at_def)
      next
        case (InR l a k1)
        with c obtain an where "?h a = Some an" by (auto simp: repc_InR_iff)
        then show ?thesis using 2 InR by (simp add: h7_def isred_at_def)
      qed
    next
      case 3
      then show ?thesis using unt[of y] y by (simp add: isred_at_def)
    qed
  qed
  have fst: "first cn' = (if k = Top \<or> (hole_isleft k \<and> hole_parent k = first cn) then Some x
                          else first cn)"
    by (auto simp: cn'_def split: ctx.splits)
  show ?thesis
    apply (rule exI[of _ "s\<lparr>nodes := h7\<rparr>"])
    using run repc_x rep_x restructuredI[of s h7, OF pr] col h7c fst by simp
qed


section \<open>Insertion and lookup\<close>

lemma descend_spec:
  assumes "descend \<rho> \<pi> Top t = (k', t')" and "sorted_wrt (<) (map \<rho> (inorder t))"
  shows "plug k' t' = t \<and> (\<forall>x\<in>set (cbefore k'). \<rho> x < \<pi>) \<and> (\<forall>x\<in>set (cafter k'). \<pi> < \<rho> x) \<and>
         (case t' of Leaf \<Rightarrow> \<pi> \<notin> \<rho> ` set (inorder t)
          | Node l a r \<Rightarrow> a \<in> set (inorder t) \<and> \<rho> a = \<pi>)"
proof -
  have pl: "plug k' t' = t" using descend_plug[OF assms(1)] by simp
  have b: "(\<forall>x\<in>set (cbefore k'). \<rho> x < \<pi>) \<and> (\<forall>x\<in>set (cafter k'). \<pi> < \<rho> x)"
    using descend_bounds[OF assms(1)] assms(2) by simp
  have "case t' of Leaf \<Rightarrow> \<pi> \<notin> \<rho> ` set (inorder t)
          | Node l a r \<Rightarrow> a \<in> set (inorder t) \<and> \<rho> a = \<pi>"
  proof (cases t')
    case Leaf
    then have "inorder t = cbefore k' @ cafter k'" using pl[symmetric] by (simp add: inorder_plug)
    then show ?thesis using b Leaf by auto
  next
    case (Node l a r)
    then have "a \<in> set (inorder t)" using pl[symmetric] by (simp add: inorder_plug)
    then show ?thesis using Node descend_found[of \<rho> \<pi> Top t k' l a r] assms(1) by simp
  qed
  then show ?thesis using pl b by simp
qed

lemma hd_ptr_simps [simp]:
  "hd_ptr [] = None" "hd_ptr (a # xs) = Some a"
  by (simp_all add: hd_ptr_def)

lemma hd_ptr_append: "hd_ptr (xs @ ys) = (if xs = [] then hd_ptr ys else hd_ptr xs)"
  by (cases xs) auto

txt \<open>The new node is the first member exactly when the test of the source says so.\<close>

lemma hole_first:
  assumes "distinct (cbefore k @ cafter k)"
  shows "(k = Top \<or> (hole_isleft k \<and> hole_parent k = hd_ptr (cbefore k @ cafter k)))
         \<longleftrightarrow> cbefore k = []"
proof (cases k)
  case Top
  then show ?thesis by simp
next
  case (InL k1 a r)
  then show ?thesis using assms by (cases "cbefore k1") (auto simp: hd_ptr_append)
next
  case (InR l a k1)
  then show ?thesis by simp
qed

lemma sorted_wrt_insert_mid:
  "sorted_wrt (<) (map \<rho> (bs @ as)) \<Longrightarrow> \<forall>b\<in>set bs. \<rho> b < \<rho> x \<Longrightarrow> \<forall>a\<in>set as. \<rho> x < \<rho> a \<Longrightarrow>
   sorted_wrt (<) (map (\<rho> :: nat \<Rightarrow> int list) (bs @ x # as))"
  by (auto simp: sorted_wrt_append)

lemma sorted_wrt_inj:
  "sorted_wrt (<) (map \<rho> xs) \<Longrightarrow> inj_on (\<rho> :: nat \<Rightarrow> int list) (set xs)"
proof -
  assume "sorted_wrt (<) (map \<rho> xs)"
  then have "distinct (map \<rho> xs)" by (induction xs) auto
  then show ?thesis by (simp add: distinct_map)
qed

lemma prank_node:
  assumes "nodes s x = Some xn" and "keyed s ob x"
  shows "\<exists>key. (if ob then rdstr s (string xn) else ret None) = ret key \<and>
               prank ob key (index xn) = rank_of s ob x"
  using assms
  by (auto simp: keyed_def rdstr_def prank_def rank_of_def node_rank_def)

lemma tree_insert_item_new:
  assumes inv: "tree_inv s c t" and cn: "nodes s c = Some cn" and xn: "nodes s x = Some xn"
    and xt: "x \<notin> set (inorder t)" and ne: "x \<noteq> c"
    and kx: "keyed s (is_object cn) x"
    and fresh: "\<forall>a\<in>set (inorder t). rank_of s (is_object cn) a \<noteq> rank_of s (is_object cn) x"
  shows "\<exists>s' t' bs as. tree_insert_item (Some x) (Some c) s = ret (None, s') \<and>
           tree_inv s' c t' \<and> restructured s s' \<and>
           inorder t = bs @ as \<and> inorder t' = bs @ x # as \<and>
           (\<forall>b\<in>set bs. rank_of s (is_object cn) b < rank_of s (is_object cn) x) \<and>
           (\<forall>a\<in>set as. rank_of s (is_object cn) x < rank_of s (is_object cn) a)"
proof -
  let ?ob = "is_object cn"
  let ?\<rho> = "rank_of s ?ob"
  from inv cn have i: "is_container cn" "rep (nodes s) None (root cn) t"
    "first cn = hd_ptr (inorder t)" "\<forall>a\<in>set (inorder t). keyed s ?ob a"
    "sorted_wrt (<) (map ?\<rho> (inorder t))" "c \<notin> set (inorder t)"
    "\<forall>a. root_ptr t = Some a \<longrightarrow> \<not> isred_at (nodes s) a"
    by (auto simp: tree_inv_def)
  have dt: "distinct (inorder t)" using inv by (rule tree_inv_distinct)
  from prank_node[OF xn kx] obtain key where
    key: "(if ?ob then rdstr s (string xn) else ret None) = ret key"
    "prank ?ob key (index xn) = ?\<rho> x" by blast
  obtain k' t' where d: "descend ?\<rho> (?\<rho> x) Top t = (k', t')" by (cases "descend ?\<rho> (?\<rho> x) Top t")
  from descend_spec[OF d i(5)] have sp: "plug k' t' = t"
    "\<forall>b\<in>set (cbefore k'). ?\<rho> b < ?\<rho> x" "\<forall>a\<in>set (cafter k'). ?\<rho> x < ?\<rho> a"
    "case t' of Leaf \<Rightarrow> ?\<rho> x \<notin> ?\<rho> ` set (inorder t)
          | Node l a r \<Rightarrow> a \<in> set (inorder t) \<and> ?\<rho> a = ?\<rho> x"
    by auto
  have leaf: "t' = Leaf" using sp(4) fresh by (cases t') auto
  have it: "inorder t = cbefore k' @ cafter k'" using sp(1)[symmetric] leaf by (simp add: inorder_plug)
  have look: "tree_lookup s key (index xn) (Some c) = ret (None, hole_parent k', hole_isleft k')"
    using tree_lookup_inv[OF inv cn, of key "index xn"] key(2) d leaf by simp
  have "repc (nodes s) c Top (root cn)" using cn by (simp add: repc_Top_iff)
  from descend_rep[OF d this] i(2) leaf have rk: "repc (nodes s) c k' None" by simp
  have cs: "cset k' = set (inorder t)" using it by (simp add: cset_def)
  from insert_link_zip[OF cn xn ne rk] dt it xt i(6) cs
  obtain s7 cn7 where s7: "insert_link (Some x) (Some c) (hole_parent k') (hole_isleft k') s = ret s7"
    "repc (nodes s7) c k' (Some x)" "rep (nodes s7) (hole_parent k') (Some x) (Node Leaf x Leaf)"
    "restructured s s7" "\<forall>a. a \<noteq> x \<longrightarrow> isred_at (nodes s7) a = isred_at (nodes s) a"
    "nodes s7 c = Some cn7"
    "first cn7 = (if k' = Top \<or> (hole_isleft k' \<and> hole_parent k' = first cn) then Some x
                  else first cn)"
    by auto
  have io: "inorder (plug k' (Node Leaf x Leaf)) = cbefore k' @ x # cafter k'"
    by (simp add: inorder_plug)
  have d7: "distinct (inorder (plug k' (Node Leaf x Leaf)))"
    "c \<notin> set (inorder (plug k' (Node Leaf x Leaf)))"
    using dt it xt ne i(6) io by auto
  have top7: "\<forall>a. ctx_top k' = Some a \<longrightarrow> \<not> isred_at (nodes s7) a"
  proof (intro allI impI)
    fix a assume a: "ctx_top k' = Some a"
    then have "root_ptr t = Some a" using sp(1)[symmetric] by (simp add: root_ptr_plug)
    moreover have "a \<in> cset k'" using a by (rule ctx_top_cset)
    ultimately show "\<not> isred_at (nodes s7) a" using i(7) s7(5) cs xt by auto
  qed
  from insert_fixup_zip[OF s7(2,3) _ d7 top7]
  obtain s8 T where s8: "insert_fixup s7 (Some x) (Some c) = ret s8"
    "repc (nodes s8) c Top (root_ptr T)" "rep (nodes s8) None (root_ptr T) T"
    "inorder T = cbefore k' @ x # cafter k'" "rebalanced s7 s8"
    using io by auto
  from s8(2) obtain cn8 where cn8: "nodes s8 c = Some cn8" "root cn8 = root_ptr T"
    by (auto simp: repc_Top_iff)
  obtain rt where rt: "root_ptr T = Some rt" using s8(4) by (cases T) auto
  then have rtT: "rt \<in> set (inorder T)" using s8(3) rep_root_in by simp
  then obtain rn where rn: "nodes s8 rt = Some rn" using rep_alloc[OF s8(3)] by blast
  have rtc: "rt \<noteq> c" using rtT s8(4) i(6) it ne by auto
  let ?s9 = "s8\<lparr>nodes := (nodes s8)(rt \<mapsto> rn\<lparr>isred := False\<rparr>)\<rparr>"
  have run: "tree_insert_item (Some x) (Some c) s = ret (None, ?s9)"
    unfolding tree_insert_item_def
    using cn xn i(1) key(1) look s7(1) s8(1) cn8 rt rn
    by (simp add: get_Some put_Some)
  have r79: "restructured s7 ?s9"
    using rebalanced_restructured[OF rebalanced_trans[OF s8(5) rebalanced_recolour[OF rn]]] .
  have rs: "restructured s ?s9" using restructured_trans[OF s7(4) r79] .
  txt \<open>the container after the insertion\<close>
  have c9: "nodes ?s9 c = Some cn8" using cn8 rtc by simp
  from restructured_nodes[OF rs cn] c9 have p9: "prel cn cn8" by simp
  from restructured_nodes[OF r79 s7(6)] c9 have "prel cn7 cn8" by simp
  have "rebalanced s7 ?s9" using rebalanced_trans[OF s8(5) rebalanced_recolour[OF rn]] .
  then obtain h9 where h9: "?s9 = s7\<lparr>nodes := h9\<rparr>" "\<forall>y. rel_option crel (nodes s7 y) (h9 y)"
    unfolding rebalanced_def by blast
  have "h9 c = Some cn8" using h9(1) c9 by (metis state.select_convs(1) state.surjective state.update_convs(1))
  with h9(2)[rule_format, of c] s7(6) have "crel cn7 cn8" by simp
  then have f8: "first cn8 = first cn7" by (simp add: crel_iff)
  have ob9: "is_object cn8 = ?ob" "is_container cn8"
    using p9 i(1) by (auto simp: prel_def is_object_def is_container_def is_array_def)
  have fst: "first cn8 = hd_ptr (inorder T)"
  proof -
    have "(k' = Top \<or> (hole_isleft k' \<and> hole_parent k' = first cn)) \<longleftrightarrow> cbefore k' = []"
      using hole_first[of k'] dt it i(3) by simp
    then show ?thesis using f8 s7(7) s8(4) i(3) it by (auto simp: hd_ptr_append)
  qed
  have rep9: "rep (nodes ?s9) None (root cn8) T"
    using rep_recolour[OF s8(3) rn, of False] cn8 by simp
  have keyed9: "\<forall>a\<in>set (inorder T). keyed ?s9 ?ob a"
    using restructured_keyed[OF rs] i(4) kx s8(4) it by auto
  have sorted9: "sorted_wrt (<) (map (rank_of ?s9 ?ob) (inorder T))"
  proof -
    have "rank_of ?s9 ?ob = ?\<rho>" using restructured_rank[OF rs] by (simp add: fun_eq_iff)
    then show ?thesis
      using sorted_wrt_insert_mid[of ?\<rho> "cbefore k'" "cafter k'" x] i(5) it sp(2,3) s8(4) by simp
  qed
  have black9: "\<forall>a. root_ptr T = Some a \<longrightarrow> \<not> isred_at (nodes ?s9) a"
    using rt by (simp add: isred_at_def)
  have cT: "c \<notin> set (inorder T)" using s8(4) i(6) it ne by auto
  have inv9: "tree_inv ?s9 c T"
    unfolding tree_inv_def
    using c9 ob9 rep9 fst keyed9 sorted9 cT black9 by simp
  show ?thesis
    apply (rule exI[of _ ?s9], rule exI[of _ T], rule exI[of _ "cbefore k'"],
        rule exI[of _ "cafter k'"])
    using run inv9 rs it s8(4) sp(2,3) by simp
qed

lemma tree_lookup_found:
  assumes inv: "tree_inv s c t" and cn: "nodes s c = Some cn" and a: "a \<in> set (inorder t)"
    and r: "prank (is_object cn) key idx = rank_of s (is_object cn) a"
  shows "\<exists>par il. tree_lookup s key idx (Some c) = ret (Some a, par, il)"
proof -
  let ?\<rho> = "rank_of s (is_object cn)"
  from inv cn have so: "sorted_wrt (<) (map ?\<rho> (inorder t))" by (auto simp: tree_inv_def)
  obtain k' t' where d: "descend ?\<rho> (?\<rho> a) Top t = (k', t')" by (cases "descend ?\<rho> (?\<rho> a) Top t")
  from descend_spec[OF d so] have sp:
    "case t' of Leaf \<Rightarrow> ?\<rho> a \<notin> ?\<rho> ` set (inorder t)
          | Node l a' r \<Rightarrow> a' \<in> set (inorder t) \<and> ?\<rho> a' = ?\<rho> a"
    by auto
  then obtain l a' r where t': "t' = Node l a' r" "a' \<in> set (inorder t)" "?\<rho> a' = ?\<rho> a"
    using a by (cases t') auto
  have "inj_on ?\<rho> (set (inorder t))" using so by (rule sorted_wrt_inj)
  then have "a' = a" using t' a by (auto dest: inj_onD)
  then show ?thesis
    using tree_lookup_inv[OF inv cn, of key idx] r d t' by simp
qed

lemma tree_lookup_missing:
  assumes inv: "tree_inv s c t" and cn: "nodes s c = Some cn"
    and r: "\<forall>a\<in>set (inorder t). rank_of s (is_object cn) a \<noteq> prank (is_object cn) key idx"
  shows "\<exists>par il. tree_lookup s key idx (Some c) = ret (None, par, il)"
proof -
  let ?\<rho> = "rank_of s (is_object cn)"
  let ?\<pi> = "prank (is_object cn) key idx"
  from inv cn have so: "sorted_wrt (<) (map ?\<rho> (inorder t))" by (auto simp: tree_inv_def)
  obtain k' t' where d: "descend ?\<rho> ?\<pi> Top t = (k', t')" by (cases "descend ?\<rho> ?\<pi> Top t")
  from descend_spec[OF d so] have
    "case t' of Leaf \<Rightarrow> ?\<pi> \<notin> ?\<rho> ` set (inorder t)
          | Node l a' r \<Rightarrow> a' \<in> set (inorder t) \<and> ?\<rho> a' = ?\<pi>"
    by auto
  then have "t' = Leaf" using r by (cases t') auto
  then show ?thesis
    using tree_lookup_inv[OF inv cn, of key idx] d by simp
qed

lemma tree_insert_item_found:
  assumes inv: "tree_inv s c t" and cn: "nodes s c = Some cn" and xn: "nodes s x = Some xn"
    and kx: "keyed s (is_object cn) x"
    and a: "a \<in> set (inorder t)" "rank_of s (is_object cn) a = rank_of s (is_object cn) x"
  shows "tree_insert_item (Some x) (Some c) s = ret (Some a, s)"
proof -
  from inv cn have i: "is_container cn" by (auto simp: tree_inv_def)
  from prank_node[OF xn kx] obtain key where
    key: "(if is_object cn then rdstr s (string xn) else ret None) = ret key"
    "prank (is_object cn) key (index xn) = rank_of s (is_object cn) x" by blast
  from tree_lookup_found[OF inv cn a(1), of key "index xn"] key(2) a(2)
  obtain par il where "tree_lookup s key (index xn) (Some c) = ret (Some a, par, il)" by auto
  then show ?thesis
    unfolding tree_insert_item_def using cn xn i key(1) by (simp add: get_Some)
qed


section \<open>The enumeration\<close>

lemma child_first_rep:
  "rep (nodes s) par p t \<Longrightarrow> t \<noteq> Leaf \<Longrightarrow> child_first s p = ret (hd_ptr (inorder t))"
proof (induction t arbitrary: par p)
  case Leaf
  then show ?case by simp
next
  case (Node l a r)
  from Node.prems(1) obtain n where n: "p = Some a" "nodes s a = Some n"
    "rep (nodes s) (Some a) (left n) l"
    by (auto simp: rep_Node_iff)
  show ?case
  proof (cases l)
    case Leaf
    then have "left n = None" using n(3) by simp
    then show ?thesis using n Leaf
      by (subst child_first.simps) (simp add: get_Some)
  next
    case (Node l1 b r1)
    then have "left n \<noteq> None" using n(3) by (auto simp: rep_Node_iff)
    moreover have "child_first s (left n) = ret (hd_ptr (inorder l))"
      using Node.IH(1)[OF n(3)] Node by simp
    ultimately show ?thesis using n Node
      by (subst child_first.simps) (simp add: get_Some hd_ptr_append)
  qed
qed

lemma child_next_up_zip:
  "repc (nodes s) c k (Some a) \<Longrightarrow> nodes s a = Some an \<Longrightarrow> parent an = hole_parent k \<Longrightarrow>
   a \<notin> cset k \<Longrightarrow> distinct (cbefore k @ cafter k) \<Longrightarrow>
   child_next_up s (Some a) = ret (hd_ptr (cafter k))"
proof (induction k arbitrary: a an)
  case Top
  then show ?case by (subst child_next_up.simps) (simp add: get_Some)
next
  case (InL k b r)
  from InL.prems(1) obtain bn where bn: "nodes s b = Some bn" "left bn = Some a"
    "rep (nodes s) (Some b) (right bn) r"
    by (auto simp: repc_InL_iff)
  have "right bn \<noteq> Some a"
  proof
    assume "right bn = Some a"
    then have "root_ptr r = Some a" using rep_root_ptr[OF bn(3)] by simp
    then have "a \<in> set (inorder r)" by (cases r) auto
    then show False using InL.prems(4) by simp
  qed
  then show ?case using InL.prems(2,3) bn
    by (subst child_next_up.simps) (simp add: get_Some)
next
  case (InR l b k)
  from InR.prems(1) obtain bn where bn: "nodes s b = Some bn" "right bn = Some a"
    "parent bn = hole_parent k" "repc (nodes s) c k (Some b)"
    by (auto simp: repc_InR_iff)
  have "b \<notin> cset k" "distinct (cbefore k @ cafter k)"
    using InR.prems(5) by (auto simp: cset_def)
  from InR.IH[OF bn(4) bn(1) bn(3) this]
  have "child_next_up s (Some b) = ret (hd_ptr (cafter k))" .
  then show ?case using InR.prems(2,3) bn
    by (subst child_next_up.simps) (simp add: get_Some)
qed

lemma child_next_zip:
  assumes "repc (nodes s) c k (Some a)" and "rep (nodes s) (hole_parent k) (Some a) (Node l a r)"
    and "distinct (inorder (plug k (Node l a r)))"
  shows "child_next s (Some a) = ret (hd_ptr (inorder r @ cafter k))"
proof -
  from assms(2) obtain an where an: "nodes s a = Some an" "parent an = hole_parent k"
    "rep (nodes s) (Some a) (right an) r"
    by (auto simp: rep_Node_iff)
  have d: "a \<notin> cset k" "distinct (cbefore k @ cafter k)"
    using assms(3) by (auto simp: inorder_plug cset_def)
  show ?thesis
  proof (cases r)
    case Leaf
    then have "right an = None" using an(3) by simp
    then show ?thesis
      using child_next_up_zip[OF assms(1) an(1,2) d] an Leaf
      by (simp add: child_next_def get_Some)
  next
    case (Node l1 b r1)
    then have "right an \<noteq> None" using an(3) by (auto simp: rep_Node_iff)
    moreover have "child_first s (right an) = ret (hd_ptr (inorder r))"
      using child_first_rep[OF an(3)] Node by simp
    ultimately show ?thesis using an Node
      by (simp add: child_next_def get_Some hd_ptr_append)
  qed
qed

lemma zipper_at:
  "a \<in> set (inorder t) \<Longrightarrow> \<exists>k l r. plug k0 t = plug k (Node l a r)"
proof (induction t arbitrary: k0)
  case Leaf
  then show ?case by simp
next
  case (Node l b r)
  consider "a = b" | "a \<in> set (inorder l)" | "a \<in> set (inorder r)"
    using Node.prems by auto
  then show ?case
  proof cases
    case 1
    then show ?thesis by blast
  next
    case 2
    from Node.IH(1)[OF 2, of "InL k0 b r"] show ?thesis by simp
  next
    case 3
    from Node.IH(2)[OF 3, of "InR l b k0"] show ?thesis by simp
  qed
qed

lemma split_unique:
  "distinct (xs @ a # ys) \<Longrightarrow> xs @ a # ys = xs' @ a # ys' \<Longrightarrow> ys = ys'"
  by (metis append_Cons_eq_iff distinct.simps(2) distinct_append Un_iff
      not_distinct_conv_prefix set_append)

lemma child_next_inv:
  assumes inv: "tree_inv s c t" and sp: "inorder t = bs @ a # as"
  shows "child_next s (Some a) = ret (hd_ptr as)"
proof -
  from inv obtain cn where cn: "nodes s c = Some cn" "rep (nodes s) None (root cn) t"
    by (auto simp: tree_inv_def)
  have dt: "distinct (inorder t)" using inv by (rule tree_inv_distinct)
  have "a \<in> set (inorder t)" using sp by simp
  from zipper_at[OF this, of Top] obtain k l r where k: "t = plug k (Node l a r)" by auto
  have "\<exists>n. nodes s c = Some n \<and> rep (nodes s) None (root n) (plug k (Node l a r))"
    using cn k by simp
  then obtain p where p: "repc (nodes s) c k p" "rep (nodes s) (hole_parent k) p (Node l a r)"
    unfolding rep_plug by blast
  then have pa: "p = Some a" by (simp add: rep_Node_iff)
  have "child_next s (Some a) = ret (hd_ptr (inorder r @ cafter k))"
    using child_next_zip[of s c k a l r] p pa dt k by simp
  moreover have "inorder r @ cafter k = as"
    using split_unique[of "cbefore k @ inorder l" a "inorder r @ cafter k" bs as] dt sp k
    by (simp add: inorder_plug)
  ultimately show ?thesis by simp
qed

lemma drain_inv:
  "tree_inv s c t \<Longrightarrow> inorder t = bs @ as \<Longrightarrow> drain s (hd_ptr as) = ret as"
proof (induction as arbitrary: bs)
  case Nil
  then show ?case by (subst drain.simps) simp
next
  case (Cons a as)
  have "child_next s (Some a) = ret (hd_ptr as)"
    using child_next_inv[OF Cons.prems] .
  moreover have "drain s (hd_ptr as) = ret as"
    using Cons.IH[OF Cons.prems(1), of "bs @ [a]"] Cons.prems(2) by simp
  ultimately show ?case by (subst drain.simps) simp
qed

lemma traversal_inv:
  assumes "tree_inv s c t"
  shows "traversal s (Some c) = ret (inorder t)"
proof -
  from assms obtain cn where cn: "nodes s c = Some cn" "is_container cn"
    "first cn = hd_ptr (inorder t)"
    by (auto simp: tree_inv_def)
  have "drain s (hd_ptr (inorder t)) = ret (inorder t)"
    using drain_inv[OF assms, of "[]"] by simp
  then show ?thesis using cn
    by (simp add: traversal_def obj_first_def get_Some)
qed

lemma GetObjectItem_found:
  assumes "tree_inv s c t" and "nodes s c = Some cn" and "is_object cn"
    and "a \<in> set (inorder t)" and "rank_of s True a = rank_str k"
  shows "cJSON_GetObjectItem s (Some c) (Some k) = ret (Some a)"
  using tree_lookup_found[OF assms(1,2,4), of "Some k" 0] assms(3,5)
  by (auto simp: cJSON_GetObjectItem_def prank_def)

lemma GetObjectItem_missing:
  assumes "tree_inv s c t" and "nodes s c = Some cn" and "is_object cn"
    and "\<forall>a\<in>set (inorder t). rank_of s True a \<noteq> prank True key 0"
  shows "cJSON_GetObjectItem s (Some c) key = ret None"
  using tree_lookup_missing[OF assms(1,2), of key 0] assms(3,4)
  by (auto simp: cJSON_GetObjectItem_def)

lemma GetArrayItem_found:
  assumes "tree_inv s c t" and "nodes s c = Some cn" and "is_array cn"
    and "a \<in> set (inorder t)" and "rank_of s False a = [i]"
  shows "cJSON_GetArrayItem s (Some c) i = ret (Some a)"
proof -
  have "\<not> is_object cn" using assms(3) by (auto simp: is_array_def is_object_def)
  then show ?thesis
    using tree_lookup_found[OF assms(1,2,4), of None i] assms(5)
    by (auto simp: cJSON_GetArrayItem_def prank_def)
qed

lemma GetArrayItem_missing:
  assumes "tree_inv s c t" and "nodes s c = Some cn" and "is_array cn"
    and "\<forall>a\<in>set (inorder t). rank_of s False a \<noteq> [i]"
  shows "cJSON_GetArrayItem s (Some c) i = ret None"
proof -
  have "\<not> is_object cn" using assms(3) by (auto simp: is_array_def is_object_def)
  then show ?thesis
    using tree_lookup_missing[OF assms(1,2), of None i] assms(4)
    by (auto simp: cJSON_GetArrayItem_def prank_def)
qed


section \<open>Adding a member to an object\<close>

lemma member_key_Some:
  "member_key s a = ret (Some k) \<longleftrightarrow>
     (\<exists>n b. nodes s a = Some n \<and> string n = Some b \<and> bufs s b = Some k)"
  by (auto simp: member_key_def get_def rdstr_def split: option.splits)

lemma member_key_rank: "member_key s a = ret (Some k) \<Longrightarrow> rank_of s True a = rank_str k"
  by (auto simp: member_key_Some rank_of_def node_rank_def)

lemma restructured_member_key:
  assumes "restructured s s'" and "member_key s a = ret (Some k)"
  shows "member_key s' a = ret (Some k)"
proof -
  from assms(2) obtain n b where n: "nodes s a = Some n" "string n = Some b" "bufs s b = Some k"
    by (auto simp: member_key_Some)
  from restructured_nodes[OF assms(1) n(1)] obtain n' where "nodes s' a = Some n'" "prel n n'"
    by blast
  then show ?thesis using n restructured_bufs[OF assms(1)]
    by (auto simp: member_key_Some prel_def)
qed

lemma c_str_idem [simp]: "c_str (c_str k) = c_str k"
  by (simp add: c_str_def)

lemma rank_str_c_str [simp]: "rank_str (c_str k) = rank_str k"
  by (simp add: rank_str_def fold_case_def)

txt \<open>
  The invariant of a tree reads the members, the container's header, and the members' key
  buffers only.
\<close>

lemma tree_inv_frame:
  assumes inv: "tree_inv s c t"
    and mem: "\<forall>a\<in>set (inorder t). nodes s' a = nodes s a"
    and c: "nodes s c = Some cn" "nodes s' c = Some cn'" "kind cn' = kind cn"
      "is_reference cn' = is_reference cn" "root cn' = root cn" "first cn' = first cn"
    and bf: "\<forall>b. bufs s b \<noteq> None \<longrightarrow> bufs s' b = bufs s b"
  shows "tree_inv s' c t \<and> (\<forall>a\<in>set (inorder t). rank_of s' (is_object cn) a = rank_of s (is_object cn) a)"
proof -
  let ?ob = "is_object cn"
  from inv c(1) have i: "is_container cn" "rep (nodes s) None (root cn) t"
    "first cn = hd_ptr (inorder t)" "\<forall>a\<in>set (inorder t). keyed s ?ob a"
    "sorted_wrt (<) (map (rank_of s ?ob) (inorder t))" "c \<notin> set (inorder t)"
    "\<forall>a. root_ptr t = Some a \<longrightarrow> \<not> isred_at (nodes s) a"
    by (auto simp: tree_inv_def)
  have ob: "is_object cn' = ?ob" "is_container cn'"
    using c i(1) by (auto simp: is_object_def is_container_def is_array_def)
  have rp: "rep (nodes s') None (root cn') t"
    using rep_frame[OF i(2), of "nodes s'"] mem c(5) by simp
  have kd: "\<And>a. a \<in> set (inorder t) \<Longrightarrow> keyed s' ?ob a \<and> rank_of s' ?ob a = rank_of s ?ob a"
  proof -
    fix a assume a: "a \<in> set (inorder t)"
    then have "keyed s ?ob a" using i(4) by simp
    then obtain n where n: "nodes s a = Some n"
      "?ob \<longrightarrow> (\<exists>b k. string n = Some b \<and> bufs s b = Some k)"
      by (auto simp: keyed_def)
    have n': "nodes s' a = Some n" using mem a n by simp
    show "keyed s' ?ob a \<and> rank_of s' ?ob a = rank_of s ?ob a"
    proof (cases ?ob)
      case True
      with n(2) obtain b k where b: "string n = Some b" "bufs s b = Some k" by auto
      then have "bufs s' b = Some k" using bf by simp
      then show ?thesis using n n' b True
        by (simp add: keyed_def rank_of_def node_rank_def)
    next
      case False
      then show ?thesis using n n' by (simp add: keyed_def rank_of_def node_rank_def)
    qed
  qed
  have so: "map (rank_of s' ?ob) (inorder t) = map (rank_of s ?ob) (inorder t)"
    using kd by simp
  have bl: "\<forall>a. root_ptr t = Some a \<longrightarrow> \<not> isred_at (nodes s') a"
  proof (intro allI impI)
    fix a assume a: "root_ptr t = Some a"
    then have "a \<in> set (inorder t)" by (cases t) auto
    then have "nodes s' a = nodes s a" using mem by simp
    then show "\<not> isred_at (nodes s') a" using i(7) a by (simp add: isred_at_def)
  qed
  have so': "sorted_wrt (<) (map (rank_of s' ?ob) (inorder t))"
    using i(5) by (simp only: so)
  have "tree_inv s' c t"
    unfolding tree_inv_def
    using c(2) ob rp c(6) i(3) kd so' i(6) bl by simp
  then show ?thesis using kd by simp
qed

lemma AddItemToObject_prep:
  assumes cn: "nodes s c = Some cn" "is_object cn"
    and av: "0 < avail s"
    and xn: "nodes s x = Some xn" "string xn = None" and ne: "x \<noteq> c"
  shows "cJSON_AddItemToObject (Some c) (Some k) (Some x) s =
         bnd (tree_insert_item (Some x) (Some c)
           (s\<lparr>brk := Suc (brk s), avail := avail s - 1, bufs := (bufs s)(brk s \<mapsto> c_str k),
              nodes := (nodes s)(x \<mapsto> xn\<lparr>string := Some (brk s)\<rparr>,
                                 c \<mapsto> cn\<lparr>count := int32 (count cn + 1)\<rparr>)\<rparr>))
           (\<lambda>(found, s5). ret s5)"
  using assms
  by (simp add: cJSON_AddItemToObject_def get_Some put_Some cJSON_strdup_def cJSON_malloc_def get_def)

lemma AddItemToObject_state:
  assumes inv: "tree_inv s c t" and cn: "nodes s c = Some cn" "is_object cn"
    and hp: "heap_ok s"
    and xn: "nodes s x = Some xn" and xt: "x \<notin> set (inorder t)" and ne: "x \<noteq> c"
    and s4: "s4 = s\<lparr>brk := Suc (brk s), avail := avail s - 1, bufs := (bufs s)(brk s \<mapsto> c_str k),
              nodes := (nodes s)(x \<mapsto> xn\<lparr>string := Some (brk s)\<rparr>,
                                 c \<mapsto> cn\<lparr>count := int32 (count cn + 1)\<rparr>)\<rparr>"
  shows "tree_inv s4 c t" and "\<forall>a\<in>set (inorder t). rank_of s4 True a = rank_of s True a"
    and "keyed s4 True x" and "rank_of s4 True x = rank_str k" and "heap_ok s4"
proof -
  have ct: "c \<notin> set (inorder t)" using inv by (simp add: tree_inv_def)
  have bf: "bufs s (brk s) = None" using hp by (auto simp: heap_ok_def)
  have fr: "tree_inv s4 c t \<and>
      (\<forall>a\<in>set (inorder t). rank_of s4 (is_object cn) a = rank_of s (is_object cn) a)"
    apply (rule tree_inv_frame[OF inv _ cn(1), where cn' = "cn\<lparr>count := int32 (count cn + 1)\<rparr>"])
    using xt ct bf by (auto simp: s4)
  show "tree_inv s4 c t" using fr by simp
  show "\<forall>a\<in>set (inorder t). rank_of s4 True a = rank_of s True a" using fr cn(2) by simp
  show "keyed s4 True x" using ne by (simp add: keyed_def s4)
  show "rank_of s4 True x = rank_str k" using ne by (simp add: rank_of_def node_rank_def s4)
  have "x < brk s" "c < brk s" using hp cn(1) xn by (auto simp: heap_ok_def)
  then show "heap_ok s4" using hp by (auto simp: heap_ok_def s4 less_Suc_eq split: if_splits)
qed

lemma restructured_heap_ok:
  assumes "restructured s s'" and "heap_ok s"
  shows "heap_ok s' \<and> avail s' = avail s \<and> brk s' = brk s"
proof -
  from assms(1) obtain h' where h: "s' = s\<lparr>nodes := h'\<rparr>" "\<forall>x. rel_option prel (nodes s x) (h' x)"
    unfolding restructured_def by blast
  have "\<And>a. h' a \<noteq> None \<Longrightarrow> nodes s a \<noteq> None"
  proof -
    fix a assume "h' a \<noteq> None"
    then show "nodes s a \<noteq> None" using h(2)[rule_format, of a] by (cases "nodes s a") auto
  qed
  then show ?thesis using assms(2) h(1) by (auto simp: heap_ok_def)
qed

lemma AddItemToObject_new:
  assumes inv: "tree_inv s c t" and cn: "nodes s c = Some cn" "is_object cn"
    and hp: "heap_ok s" and av: "0 < avail s"
    and xn: "nodes s x = Some xn" "string xn = None" and xt: "x \<notin> set (inorder t)" and ne: "x \<noteq> c"
    and fresh: "\<forall>a\<in>set (inorder t). rank_of s True a \<noteq> rank_str k"
  shows "\<exists>s' t' cn'. cJSON_AddItemToObject (Some c) (Some k) (Some x) s = ret s' \<and>
      tree_inv s' c t' \<and> heap_ok s' \<and> avail s' = avail s - 1 \<and>
      set (inorder t') = insert x (set (inorder t)) \<and>
      member_key s' x = ret (Some (c_str k)) \<and>
      (\<forall>a kk. a \<noteq> x \<longrightarrow> a \<noteq> c \<longrightarrow> member_key s a = ret (Some kk) \<longrightarrow>
          member_key s' a = ret (Some kk)) \<and>
      (\<forall>y n. nodes s y = Some n \<longrightarrow> y \<noteq> x \<longrightarrow> y \<noteq> c \<longrightarrow> (\<exists>n'. nodes s' y = Some n' \<and> prel n n')) \<and>
      nodes s' c = Some cn' \<and> is_object cn'"
proof -
  define s4 where "s4 = s\<lparr>brk := Suc (brk s), avail := avail s - 1,
              bufs := (bufs s)(brk s \<mapsto> c_str k),
              nodes := (nodes s)(x \<mapsto> xn\<lparr>string := Some (brk s)\<rparr>,
                                 c \<mapsto> cn\<lparr>count := int32 (count cn + 1)\<rparr>)\<rparr>"
  note st = AddItemToObject_state[OF inv cn hp xn(1) xt ne s4_def]
  have c4: "nodes s4 c = Some (cn\<lparr>count := int32 (count cn + 1)\<rparr>)" by (simp add: s4_def)
  have ob4: "is_object (cn\<lparr>count := int32 (count cn + 1)\<rparr>)" using cn(2) by (simp add: is_object_def)
  have x4: "nodes s4 x = Some (xn\<lparr>string := Some (brk s)\<rparr>)" using ne by (simp add: s4_def)
  have fr4: "\<forall>a\<in>set (inorder t). rank_of s4 (is_object (cn\<lparr>count := int32 (count cn + 1)\<rparr>)) a \<noteq>
      rank_of s4 (is_object (cn\<lparr>count := int32 (count cn + 1)\<rparr>)) x"
    using st(2,4) fresh ob4 by simp
  from tree_insert_item_new[OF st(1) c4 x4 xt ne _ fr4] st(3) ob4
  obtain s' t' bs as where r: "tree_insert_item (Some x) (Some c) s4 = ret (None, s')"
    "tree_inv s' c t'" "restructured s4 s'" "inorder t = bs @ as" "inorder t' = bs @ x # as"
    by auto
  have run: "cJSON_AddItemToObject (Some c) (Some k) (Some x) s = ret s'"
    using AddItemToObject_prep[OF cn av xn ne, of k] r(1) by (simp add: s4_def)
  have hp': "heap_ok s' \<and> avail s' = avail s4 \<and> brk s' = brk s4"
    using restructured_heap_ok[OF r(3) st(5)] .
  have rk: "\<And>a. rank_of s' True a = rank_of s4 True a" using restructured_rank[OF r(3)] by simp
  have oth: "\<forall>y n. nodes s y = Some n \<longrightarrow> y \<noteq> x \<longrightarrow> y \<noteq> c \<longrightarrow> (\<exists>n'. nodes s' y = Some n' \<and> prel n n')"
  proof (intro allI impI)
    fix y n assume "nodes s y = Some n" "y \<noteq> x" "y \<noteq> c"
    then have "nodes s4 y = Some n" by (simp add: s4_def)
    then show "\<exists>n'. nodes s' y = Some n' \<and> prel n n'" using restructured_nodes[OF r(3)] by simp
  qed
  have bf: "bufs s (brk s) = None" using hp by (auto simp: heap_ok_def)
  have mx: "member_key s' x = ret (Some (c_str k))"
    apply (rule restructured_member_key[OF r(3)])
    using ne by (simp add: member_key_Some s4_def)
  have mo: "\<forall>a kk. a \<noteq> x \<longrightarrow> a \<noteq> c \<longrightarrow> member_key s a = ret (Some kk) \<longrightarrow>
          member_key s' a = ret (Some kk)"
  proof (intro allI impI)
    fix a kk assume a: "a \<noteq> x" "a \<noteq> c" "member_key s a = ret (Some kk)"
    then obtain n b where "nodes s a = Some n" "string n = Some b" "bufs s b = Some kk"
      by (auto simp: member_key_Some)
    then have "member_key s4 a = ret (Some kk)"
      using a(1,2) bf by (auto simp: member_key_Some s4_def)
    then show "member_key s' a = ret (Some kk)" by (rule restructured_member_key[OF r(3)])
  qed
  from restructured_nodes[OF r(3) c4] obtain cn' where cn': "nodes s' c = Some cn'"
    "prel (cn\<lparr>count := int32 (count cn + 1)\<rparr>) cn'" by blast
  then have "is_object cn'" using ob4 by (simp add: prel_def is_object_def)
  then show ?thesis
    using run r(2) hp' r(4,5) mx mo oth cn'(1) by (auto simp: s4_def)
qed

lemma AddItemToObject_found:
  assumes inv: "tree_inv s c t" and cn: "nodes s c = Some cn" "is_object cn"
    and hp: "heap_ok s" and av: "0 < avail s"
    and xn: "nodes s x = Some xn" "string xn = None" and xt: "x \<notin> set (inorder t)" and ne: "x \<noteq> c"
    and a: "a \<in> set (inorder t)" "rank_of s True a = rank_str k"
    and s4: "s4 = s\<lparr>brk := Suc (brk s), avail := avail s - 1,
              bufs := (bufs s)(brk s \<mapsto> c_str k),
              nodes := (nodes s)(x \<mapsto> xn\<lparr>string := Some (brk s)\<rparr>,
                                 c \<mapsto> cn\<lparr>count := int32 (count cn + 1)\<rparr>)\<rparr>"
  shows "cJSON_AddItemToObject (Some c) (Some k) (Some x) s = ret s4 \<and> tree_inv s4 c t \<and>
         (\<forall>a\<in>set (inorder t). rank_of s4 True a = rank_of s True a) \<and>
         tree_insert_item (Some x) (Some c) s4 = ret (Some a, s4)"
proof -
  note st = AddItemToObject_state[OF inv cn hp xn(1) xt ne s4]
  have c4: "nodes s4 c = Some (cn\<lparr>count := int32 (count cn + 1)\<rparr>)" by (simp add: s4)
  have ob4: "is_object (cn\<lparr>count := int32 (count cn + 1)\<rparr>)" using cn(2) by (simp add: is_object_def)
  have x4: "nodes s4 x = Some (xn\<lparr>string := Some (brk s)\<rparr>)" using ne by (simp add: s4)
  have ins: "tree_insert_item (Some x) (Some c) s4 = ret (Some a, s4)"
    apply (rule tree_insert_item_found[OF st(1) c4 x4 _ a(1)])
    using st(2,3,4) ob4 a by simp_all
  then have "cJSON_AddItemToObject (Some c) (Some k) (Some x) s = ret s4"
    using AddItemToObject_prep[OF cn av xn ne, of k] by (simp add: s4)
  then show ?thesis using st(1,2) ins by simp
qed


section \<open>Appending to an array, and runs of additions\<close>

lemma int32_id: "- 2147483648 \<le> x \<Longrightarrow> x < 2147483648 \<Longrightarrow> int32 x = x"
  by (simp add: int32_def)

lemma numbered_nth: "numbered s xs \<Longrightarrow> i < length xs \<Longrightarrow> rank_of s False (xs ! i) = [int i]"
proof -
  assume a: "numbered s xs" "i < length xs"
  have "map (rank_of s False) xs ! i = map (\<lambda>i. [int i]) [0..<length xs] ! i"
    using a(1) by (simp add: numbered_def)
  then show ?thesis using a(2) by simp
qed

lemma numbered_bound:
  "numbered s xs \<Longrightarrow> a \<in> set xs \<Longrightarrow> \<exists>i<length xs. rank_of s False a = [int i]"
  by (metis in_set_conv_nth numbered_nth)

lemma numbered_snoc:
  assumes "numbered s xs" and "\<forall>a\<in>set xs. rank_of s' False a = rank_of s False a"
    and "rank_of s' False x = [int (length xs)]"
  shows "numbered s' (xs @ [x])"
proof -
  have "map (rank_of s' False) xs = map (rank_of s False) xs" using assms(2) by simp
  then show ?thesis using assms(1,3) by (simp add: numbered_def del: map_eq_conv)
qed

lemma AddItemToArray_step:
  assumes inv: "tree_inv s c t" and cn: "nodes s c = Some cn" "is_array cn"
    and xn: "nodes s x = Some xn" and xt: "x \<notin> set (inorder t)" and ne: "x \<noteq> c"
    and cnt: "count cn = int (length (inorder t))"
    and idx: "numbered s (inorder t)"
    and bound: "length (inorder t) < 2147483647"
  shows "\<exists>s' t' cn'. cJSON_AddItemToArray (Some c) (Some x) s = ret s' \<and>
      tree_inv s' c t' \<and> inorder t' = inorder t @ [x] \<and>
      nodes s' c = Some cn' \<and> is_array cn' \<and> count cn' = int (length (inorder t')) \<and>
      numbered s' (inorder t') \<and>
      (\<forall>y n. nodes s y = Some n \<longrightarrow> y \<noteq> x \<longrightarrow> y \<noteq> c \<longrightarrow> (\<exists>n'. nodes s' y = Some n' \<and> prel n n'))"
proof -
  let ?n = "length (inorder t)"
  define cn2 where "cn2 = cn\<lparr>count := int ?n + 1\<rparr>"
  define s2 where "s2 = s\<lparr>nodes := (nodes s)(c \<mapsto> cn2, x \<mapsto> xn\<lparr>index := int ?n\<rparr>)\<rparr>"
  have nob: "\<not> is_object cn" using cn(2) by (auto simp: is_array_def is_object_def)
  have ct: "c \<notin> set (inorder t)" using inv by (simp add: tree_inv_def)
  have i32: "int32 (int ?n + 1) = int ?n + 1" using bound by (intro int32_id) auto
  have pre: "cJSON_AddItemToArray (Some c) (Some x) s =
      bnd (tree_insert_item (Some x) (Some c) s2) (\<lambda>(found, s3). ret s3)"
    using cn xn ne cnt i32
    by (simp add: cJSON_AddItemToArray_def get_Some put_Some s2_def cn2_def)
  have c2: "nodes s2 c = Some cn2" using ne by (simp add: s2_def)
  have x2: "nodes s2 x = Some (xn\<lparr>index := int ?n\<rparr>)" by (simp add: s2_def)
  have ob2: "is_object cn2 = False" "is_array cn2" using nob cn(2)
    by (auto simp: cn2_def is_object_def is_array_def)
  have fr: "tree_inv s2 c t \<and>
      (\<forall>a\<in>set (inorder t). rank_of s2 (is_object cn) a = rank_of s (is_object cn) a)"
    apply (rule tree_inv_frame[OF inv _ cn(1), where cn' = cn2])
    using xt ct ne by (auto simp: s2_def cn2_def)
  then have inv2: "tree_inv s2 c t" and rk2: "\<forall>a\<in>set (inorder t). rank_of s2 False a = rank_of s False a"
    using nob by auto
  have rx: "rank_of s2 False x = [int ?n]" by (simp add: rank_of_def node_rank_def s2_def)
  have kx: "keyed s2 (is_object cn2) x" using ob2 x2 by (simp add: keyed_def)
  have low: "\<forall>a\<in>set (inorder t). rank_of s2 False a < rank_of s2 False x"
  proof
    fix a assume a: "a \<in> set (inorder t)"
    from numbered_bound[OF idx a] obtain i where "i < ?n" "rank_of s False a = [int i]" by blast
    then show "rank_of s2 False a < rank_of s2 False x" using rk2 a rx by simp
  qed
  then have fresh: "\<forall>a\<in>set (inorder t). rank_of s2 (is_object cn2) a \<noteq> rank_of s2 (is_object cn2) x"
    using ob2 by auto
  from tree_insert_item_new[OF inv2 c2 x2 xt ne kx fresh] ob2
  obtain s' t' bs as where r: "tree_insert_item (Some x) (Some c) s2 = ret (None, s')"
    "tree_inv s' c t'" "restructured s2 s'" "inorder t = bs @ as" "inorder t' = bs @ x # as"
    "\<forall>a\<in>set as. rank_of s2 False x < rank_of s2 False a"
    by auto
  have "as = []"
  proof (cases as)
    case Nil
    then show ?thesis .
  next
    case (Cons a as')
    then have "a \<in> set (inorder t)" "rank_of s2 False x < rank_of s2 False a" using r(4,6) by auto
    then show ?thesis using low by auto
  qed
  then have io: "inorder t' = inorder t @ [x]" using r(4,5) by simp
  have run: "cJSON_AddItemToArray (Some c) (Some x) s = ret s'" using pre r(1) by simp
  from restructured_nodes[OF r(3) c2] obtain cn' where cn': "nodes s' c = Some cn'" "prel cn2 cn'"
    by blast
  then have ca: "is_array cn'" "count cn' = int (length (inorder t'))"
    using ob2 io by (auto simp: prel_def is_array_def cn2_def)
  have rk: "\<And>a. rank_of s' False a = rank_of s2 False a" using restructured_rank[OF r(3)] by simp
  have nm: "numbered s' (inorder t')"
    unfolding io using numbered_snoc[OF idx, of s' x] rk rk2 rx by simp
  have oth: "\<forall>y n. nodes s y = Some n \<longrightarrow> y \<noteq> x \<longrightarrow> y \<noteq> c \<longrightarrow> (\<exists>n'. nodes s' y = Some n' \<and> prel n n')"
  proof (intro allI impI)
    fix y n assume "nodes s y = Some n" "y \<noteq> x" "y \<noteq> c"
    then have "nodes s2 y = Some n" by (simp add: s2_def)
    then show "\<exists>n'. nodes s' y = Some n' \<and> prel n n'" using restructured_nodes[OF r(3)] by simp
  qed
  show ?thesis using run r(2) io cn'(1) ca nm oth by blast
qed

lemma append_items_inv:
  assumes "tree_inv s c t" and "nodes s c = Some cn" and "is_array cn"
    and "count cn = int (length (inorder t))" and "numbered s (inorder t)"
    and "distinct xs" and "set xs \<inter> set (inorder t) = {}" and "c \<notin> set xs"
    and "\<forall>x\<in>set xs. nodes s x \<noteq> None"
    and "length (inorder t) + length xs \<le> 2147483647"
  shows "\<exists>s' t' cn'. append_items xs (Some c) s = ret s' \<and> tree_inv s' c t' \<and>
      inorder t' = inorder t @ xs \<and> nodes s' c = Some cn' \<and> is_array cn' \<and>
      count cn' = int (length (inorder t')) \<and> numbered s' (inorder t')"
  using assms
proof (induction xs arbitrary: s t cn)
  case Nil
  then show ?case by (intro exI[of _ s] exI[of _ t] exI[of _ cn]) simp
next
  case (Cons x xs)
  from Cons.prems(9) obtain xn where xn: "nodes s x = Some xn" by auto
  have xt: "x \<notin> set (inorder t)" "x \<noteq> c" "length (inorder t) < 2147483647"
    using Cons.prems(7,8,10) by auto
  from AddItemToArray_step[OF Cons.prems(1,2,3) xn xt(1,2) Cons.prems(4,5) xt(3)]
  obtain s1 t1 cn1 where s1: "cJSON_AddItemToArray (Some c) (Some x) s = ret s1"
    "tree_inv s1 c t1" "inorder t1 = inorder t @ [x]" "nodes s1 c = Some cn1" "is_array cn1"
    "count cn1 = int (length (inorder t1))" "numbered s1 (inorder t1)"
    "\<forall>y n. nodes s y = Some n \<longrightarrow> y \<noteq> x \<longrightarrow> y \<noteq> c \<longrightarrow> (\<exists>n'. nodes s1 y = Some n' \<and> prel n n')"
    by blast
  have al: "\<forall>y\<in>set xs. nodes s1 y \<noteq> None"
  proof
    fix y assume y: "y \<in> set xs"
    then obtain n where "nodes s y = Some n" using Cons.prems(9) by auto
    moreover have "y \<noteq> x" "y \<noteq> c" using y Cons.prems(6,8) by auto
    ultimately show "nodes s1 y \<noteq> None" using s1(8) by blast
  qed
  have d: "distinct xs" "set xs \<inter> set (inorder t1) = {}" "c \<notin> set xs"
    "length (inorder t1) + length xs \<le> 2147483647"
    using Cons.prems(6,7,8,10) s1(3) by auto
  from Cons.IH[OF s1(2,4,5,6,7) d(1,2,3) al d(4)]
  obtain s' t' cn' where r: "append_items xs (Some c) s1 = ret s'" "tree_inv s' c t'"
    "inorder t' = inorder t1 @ xs" "nodes s' c = Some cn'" "is_array cn'"
    "count cn' = int (length (inorder t'))" "numbered s' (inorder t')"
    by blast
  have "append_items (x # xs) (Some c) s = ret s'" using s1(1) r(1) by simp
  moreover have "inorder t' = inorder t @ x # xs" using r(3) s1(3) by simp
  ultimately show ?case using r(2,4,5,6,7) by blast
qed

lemma add_members_inv:
  assumes "tree_inv s c t" and "nodes s c = Some cn" and "is_object cn"
    and "heap_ok s" and "length kvs \<le> avail s"
    and "distinct (map snd kvs)" and "snd ` set kvs \<inter> set (inorder t) = {}"
    and "c \<notin> snd ` set kvs"
    and "\<forall>x\<in>snd ` set kvs. \<exists>n. nodes s x = Some n \<and> string n = None"
    and "distinct (map (\<lambda>(k, x). fold_case k) kvs)"
    and "\<forall>(k, x)\<in>set kvs. \<forall>a\<in>set (inorder t). rank_of s True a \<noteq> rank_str k"
    and "\<forall>a\<in>set (inorder t). \<exists>kk. member_key s a = ret (Some kk)"
  shows "\<exists>s' t' cn'. add_members kvs (Some c) s = ret s' \<and> tree_inv s' c t' \<and>
      set (inorder t') = set (inorder t) \<union> snd ` set kvs \<and>
      nodes s' c = Some cn' \<and> is_object cn' \<and>
      (\<forall>(k, x)\<in>set kvs. member_key s' x = ret (Some (c_str k))) \<and>
      (\<forall>a\<in>set (inorder t). member_key s' a = member_key s a) \<and>
      heap_ok s' \<and> avail s' = avail s - length kvs \<and>
      (\<forall>y n. nodes s y = Some n \<longrightarrow> y \<notin> snd ` set kvs \<longrightarrow> y \<noteq> c \<longrightarrow>
         (\<exists>n'. nodes s' y = Some n' \<and> prel n n'))"
  using assms
proof (induction kvs arbitrary: s t cn)
  case Nil
  then show ?case by (intro exI[of _ s] exI[of _ t] exI[of _ cn]) simp
next
  case (Cons kx kvs)
  obtain k x where kx: "kx = (k, x)" by (cases kx)
  from Cons.prems(9) kx obtain xn where xn: "nodes s x = Some xn" "string xn = None" by auto
  have ct: "c \<notin> set (inorder t)" using Cons.prems(1) by (simp add: tree_inv_def)
  have xt: "x \<notin> set (inorder t)" "x \<noteq> c" "0 < avail s"
    "\<forall>a\<in>set (inorder t). rank_of s True a \<noteq> rank_str k"
    using Cons.prems(5,7,8,11) kx by auto
  from AddItemToObject_new[OF Cons.prems(1,2,3,4) xt(3) xn xt(1,2,4)]
  obtain s1 t1 cn1 where s1: "cJSON_AddItemToObject (Some c) (Some k) (Some x) s = ret s1"
    "tree_inv s1 c t1" "heap_ok s1" "avail s1 = avail s - 1"
    "set (inorder t1) = insert x (set (inorder t))"
    "member_key s1 x = ret (Some (c_str k))"
    "\<forall>a kk. a \<noteq> x \<longrightarrow> a \<noteq> c \<longrightarrow> member_key s a = ret (Some kk) \<longrightarrow>
          member_key s1 a = ret (Some kk)"
    "\<forall>y n. nodes s y = Some n \<longrightarrow> y \<noteq> x \<longrightarrow> y \<noteq> c \<longrightarrow> (\<exists>n'. nodes s1 y = Some n' \<and> prel n n')"
    "nodes s1 c = Some cn1" "is_object cn1"
    by blast
  have old: "\<forall>a\<in>set (inorder t). member_key s1 a = member_key s a"
  proof
    fix a assume a: "a \<in> set (inorder t)"
    then obtain kk where "member_key s a = ret (Some kk)" using Cons.prems(12) by blast
    moreover have "a \<noteq> x" "a \<noteq> c" using a xt(1) ct by auto
    ultimately show "member_key s1 a = member_key s a" using s1(7) by simp
  qed
  have p5: "length kvs \<le> avail s1" using Cons.prems(5) s1(4) by simp
  have p6: "distinct (map snd kvs)" using Cons.prems(6) by simp
  have p7: "snd ` set kvs \<inter> set (inorder t1) = {}"
    using Cons.prems(6,7) s1(5) kx by auto
  have p8: "c \<notin> snd ` set kvs" using Cons.prems(8) by simp
  have p9: "\<forall>y\<in>snd ` set kvs. \<exists>n. nodes s1 y = Some n \<and> string n = None"
  proof
    fix y assume y: "y \<in> snd ` set kvs"
    then obtain n where n: "nodes s y = Some n" "string n = None" using Cons.prems(9) by auto
    moreover have "y \<noteq> x" "y \<noteq> c" using y Cons.prems(6,8) kx by auto
    ultimately obtain n' where "nodes s1 y = Some n'" "prel n n'" using s1(8) by blast
    then show "\<exists>n. nodes s1 y = Some n \<and> string n = None" using n(2) by (simp add: prel_def)
  qed
  have p10: "distinct (map (\<lambda>(k, x). fold_case k) kvs)" using Cons.prems(10) by simp
  have p11: "\<forall>(k', x')\<in>set kvs. \<forall>a\<in>set (inorder t1). rank_of s1 True a \<noteq> rank_str k'"
  proof (intro ballI, clarify)
    fix k' x' a assume h: "(k', x') \<in> set kvs" "a \<in> set (inorder t1)"
      "rank_of s1 True a = rank_str k'"
    show False
    proof (cases "a = x")
      case True
      then have "rank_str k = rank_str k'"
        using member_key_rank[OF s1(6)] h(3) by simp
      then have "fold_case k = fold_case k'" by (simp add: rank_str_def)
      then show False using Cons.prems(10) h(1) kx by force
    next
      case False
      then have a: "a \<in> set (inorder t)" using h(2) s1(5) by simp
      then obtain kk where kk: "member_key s a = ret (Some kk)" using Cons.prems(12) by blast
      then have "member_key s1 a = ret (Some kk)" using old a by simp
      then have "rank_of s1 True a = rank_of s True a"
        using member_key_rank kk by simp
      then show False using Cons.prems(11) h(1,3) a by force
    qed
  qed
  have p12: "\<forall>a\<in>set (inorder t1). \<exists>kk. member_key s1 a = ret (Some kk)"
    using s1(5,6) old Cons.prems(12) by auto
  from Cons.IH[OF s1(2,9,10,3) p5 p6 p7 p8 p9 p10 p11 p12]
  obtain s' t' cn' where r: "add_members kvs (Some c) s1 = ret s'" "tree_inv s' c t'"
    "set (inorder t') = set (inorder t1) \<union> snd ` set kvs"
    "nodes s' c = Some cn'" "is_object cn'"
    "\<forall>(k, x)\<in>set kvs. member_key s' x = ret (Some (c_str k))"
    "\<forall>a\<in>set (inorder t1). member_key s' a = member_key s1 a"
    "heap_ok s'" "avail s' = avail s1 - length kvs"
    "\<forall>y n. nodes s1 y = Some n \<longrightarrow> y \<notin> snd ` set kvs \<longrightarrow> y \<noteq> c \<longrightarrow>
         (\<exists>n'. nodes s' y = Some n' \<and> prel n n')"
    by blast
  have fr: "\<forall>y n. nodes s y = Some n \<longrightarrow> y \<notin> snd ` set (kx # kvs) \<longrightarrow> y \<noteq> c \<longrightarrow>
         (\<exists>n'. nodes s' y = Some n' \<and> prel n n')"
  proof (intro allI impI)
    fix y n assume y: "nodes s y = Some n" "y \<notin> snd ` set (kx # kvs)" "y \<noteq> c"
    then have "y \<noteq> x" using kx by auto
    then obtain n1 where n1: "nodes s1 y = Some n1" "prel n n1" using s1(8) y by blast
    moreover have "y \<notin> snd ` set kvs" using y(2) by auto
    ultimately obtain n' where "nodes s' y = Some n'" "prel n1 n'" using r(10) y(3) by blast
    then show "\<exists>n'. nodes s' y = Some n' \<and> prel n n'" using n1(2) by (auto simp: prel_def)
  qed
  have av: "avail s' = avail s - length (kx # kvs)" using r(9) s1(4) by simp
  have "add_members (kx # kvs) (Some c) s = ret s'" using s1(1) r(1) kx by simp
  moreover have "set (inorder t') = set (inorder t) \<union> snd ` set (kx # kvs)"
    using r(3) s1(5) kx by auto
  moreover have "\<forall>(k, x)\<in>set (kx # kvs). member_key s' x = ret (Some (c_str k))"
    using r(6,7) s1(5,6) kx by auto
  moreover have "\<forall>a\<in>set (inorder t). member_key s' a = member_key s a"
    using r(7) s1(5) old by auto
  ultimately show ?case using r(2,4,5,8) fr av by blast
qed


section \<open>Containers built from empty\<close>

lemma strcasecmp_fold:
  "cJSON_strcasecmp (Some a) (Some b) = 0 \<longleftrightarrow> fold_case a = fold_case b"
  using strcasecmp_loop_rank[of a b] by (simp add: cJSON_strcasecmp_def rank_str_def)

lemma strcasecmp_rank:
  "0 < cJSON_strcasecmp (Some a) (Some b) \<longleftrightarrow> rank_str a < rank_str b"
  using strcasecmp_loop_rank[of a b] by (simp add: cJSON_strcasecmp_def)

lemma rank_str_eq_iff: "rank_str a = rank_str b \<longleftrightarrow> fold_case a = fold_case b"
  by (simp add: rank_str_def)

lemma fold_case_c_str [simp]: "fold_case (c_str k) = fold_case k"
  by (simp add: fold_case_def)

lemma tree_inv_empty:
  assumes "nodes s c = Some cn" and "is_container cn" and "root cn = None" and "first cn = None"
  shows "tree_inv s c Leaf"
  using assms by (simp add: tree_inv_def)

lemma keys_of_members:
  "\<forall>a\<in>set ys. member_key s a = ret (Some (f a)) \<Longrightarrow>
   keys_of s ys = ret (map (\<lambda>a. Some (f a)) ys)"
proof (induction ys)
  case Nil
  then show ?case by simp
next
  case (Cons a ys)
  then have "member_key s a = ret (Some (f a))" by simp
  then obtain n b where "nodes s a = Some n" "string n = Some b" "bufs s b = Some (f a)"
    by (auto simp: member_key_Some)
  then show ?case using Cons by (simp add: get_Some rdstr_def)
qed

lemma indices_of_rank:
  "\<forall>a\<in>set xs. nodes s a \<noteq> None \<Longrightarrow> map (rank_of s False) xs = map (\<lambda>i. [i]) js \<Longrightarrow>
   indices_of s xs = ret js"
proof (induction xs arbitrary: js)
  case Nil
  then show ?case by simp
next
  case (Cons a xs)
  from Cons.prems(2) obtain i js' where js: "js = i # js'" "rank_of s False a = [i]"
    "map (rank_of s False) xs = map (\<lambda>i. [i]) js'"
    by (cases js) auto
  from Cons.prems(1) obtain n where n: "nodes s a = Some n" by auto
  then have "index n = i" using js(2) by (simp add: rank_of_def node_rank_def)
  moreover have "indices_of s xs = ret js'" using Cons.IH[OF _ js(3)] Cons.prems(1) by simp
  ultimately show ?case using n js(1) by (simp add: get_Some)
qed

lemma indices_of_numbered:
  assumes "numbered s xs" and "\<forall>a\<in>set xs. nodes s a \<noteq> None"
  shows "indices_of s xs = ret (map int [0..<length xs])"
proof -
  have "map (rank_of s False) xs = map (\<lambda>i. [i]) (map int [0..<length xs])"
    using assms(1) by (simp add: numbered_def comp_def del: map_eq_conv)
  then show ?thesis using indices_of_rank[OF assms(2)] by blast
qed

lemma zip_map_self: "set (zip (map f ys) ys) = (\<lambda>a. (f a, a)) ` set ys"
  by (induction ys) auto

lemma tree_inv_alloc: "tree_inv s c t \<Longrightarrow> a \<in> set (inorder t) \<Longrightarrow> nodes s a \<noteq> None"
  by (auto simp: tree_inv_def keyed_def)

txt \<open>What a run of appends establishes.\<close>

lemma append_items_empty:
  assumes arr: "nodes s ar = Some an" "is_array an" "root an = None" "first an = None"
      "count an = 0"
    and els: "distinct xs" "ar \<notin> set xs" "\<forall>x\<in>set xs. nodes s x \<noteq> None"
      "length xs \<le> 2147483647"
  shows "\<exists>s' t' an'. append_items xs (Some ar) s = ret s' \<and> tree_inv s' ar t' \<and>
      inorder t' = xs \<and> nodes s' ar = Some an' \<and> is_array an' \<and>
      count an' = int (length xs) \<and> numbered s' xs"
proof -
  have inv: "tree_inv s ar Leaf"
    using arr by (intro tree_inv_empty[of s ar an]) (simp_all add: is_container_def)
  have p: "count an = int (length (inorder Leaf))" "numbered s (inorder Leaf)"
    "set xs \<inter> set (inorder Leaf) = {}" "length (inorder Leaf) + length xs \<le> 2147483647"
    using arr(5) els(4) by (simp_all add: numbered_def)
  from append_items_inv[OF inv arr(1,2) p(1,2) els(1) p(3) els(2,3) p(4)]
  obtain s' t' an' where r: "append_items xs (Some ar) s = ret s'" "tree_inv s' ar t'"
    "inorder t' = inorder Leaf @ xs" "nodes s' ar = Some an'" "is_array an'"
    "count an' = int (length (inorder t'))" "numbered s' (inorder t')"
    by blast
  have io: "inorder t' = xs" using r(3) by simp
  have cnt: "count an' = int (length xs)" using r(6) io by simp
  have nm: "numbered s' xs" using r(7) io by simp
  show ?thesis using r(1,2,4,5) io cnt nm by blast
qed

lemma add_members_empty:
  assumes obj: "nodes s ob = Some on" "is_object on" "root on = None" "first on = None"
    and heap: "heap_ok s" "length kvs \<le> avail s"
    and mem: "distinct (map snd kvs)" "ob \<notin> snd ` set kvs"
      "\<forall>x\<in>snd ` set kvs. \<exists>n. nodes s x = Some n \<and> string n = None"
    and keys: "distinct (map (\<lambda>(k, x). fold_case k) kvs)"
  shows "\<exists>s' t' on'. add_members kvs (Some ob) s = ret s' \<and> tree_inv s' ob t' \<and>
      set (inorder t') = snd ` set kvs \<and> nodes s' ob = Some on' \<and> is_object on' \<and>
      (\<forall>(k, x)\<in>set kvs. member_key s' x = ret (Some (c_str k))) \<and>
      heap_ok s' \<and> avail s' = avail s - length kvs \<and>
      (\<forall>y n. nodes s y = Some n \<longrightarrow> y \<notin> snd ` set kvs \<longrightarrow> y \<noteq> ob \<longrightarrow>
         (\<exists>n'. nodes s' y = Some n' \<and> prel n n'))"
proof -
  have inv: "tree_inv s ob Leaf"
    using obj by (intro tree_inv_empty[of s ob on]) (simp_all add: is_container_def)
  from add_members_inv[OF inv obj(1,2) heap mem(1) _ mem(2,3) keys]
  show ?thesis by simp
qed


section \<open>Deletion\<close>








section \<open>Lookup\<close>

text \<open>
  C7 (lookup round trip: every element appended to an array is what
  \<^verbatim>\<open>cJSON_GetArrayItem\<close> returns for its ordinal).  \<^verbatim>\<open>cJSON_CreateStringArray\<close> makes an
  array of two elements, the nodes 2 and 4 with the ordinals 0 and 1, and leaves its
  \<^verbatim>\<open>count\<close> at 0, where \<^verbatim>\<open>cJSON_CreateIntArray\<close> and its other siblings end with
  \<^verbatim>\<open>a->count=count\<close>.  The node 6 is then appended with \<^verbatim>\<open>cJSON_AddItemToArray\<close>: it
  is given the ordinal 0, collides with the node 2 and is not inserted.  The lookup of its
  ordinal returns the node 2, and the traversal does not visit it.
\<close>

theorem string_array_append_collides:
  "bnd (cJSON_CreateStringArray [''a'', ''b''] s0) (\<lambda>(a, s1).
   bnd (cJSON_GetArraySize s1 a) (\<lambda>c.
   bnd (cJSON_CreateNull s1) (\<lambda>(n, s2).
   bnd (cJSON_AddItemToArray a n s2) (\<lambda>s3.
   bnd (get s3 n index) (\<lambda>i.
   bnd (cJSON_GetArrayItem s3 a i) (\<lambda>g.
   bnd (traversal s3 a) (\<lambda>t. ret (c, n, i, g, t))))))))
   = ret (0, Some 6, 0, Some 2, [2, 4])"
  by code_simp

text \<open>
  The members of an object are lost to the lookup in another way.  Where the allocator
  refuses the copy of the key, \<^verbatim>\<open>cJSON_AddItemToObject\<close> stores the \<^verbatim>\<open>NULL\<close> that
  \<^verbatim>\<open>cJSON_strdup\<close> returns as the key, unchecked: with room for four allocations, the
  node 3 is added under the key b, the only key b of the object, and the lookup of b returns
  \<^verbatim>\<open>NULL\<close>.
\<close>

theorem refused_key_copy_loses_member:
  "bnd (cJSON_CreateObject (s0\<lparr>avail := 4\<rparr>)) (\<lambda>(ob, s1).
   bnd (cJSON_CreateNull s1) (\<lambda>(n1, s2).
   bnd (cJSON_CreateNull s2) (\<lambda>(n2, s3).
   bnd (cJSON_AddItemToObject ob (Some ''a'') n1 s3) (\<lambda>s4.
   bnd (cJSON_AddItemToObject ob (Some ''b'') n2 s4) (\<lambda>s5.
   bnd (cJSON_GetObjectItem s5 ob (Some ''b'')) (\<lambda>g. ret (n1, n2, g)))))))
   = ret (Some 2, Some 3, None)"
  by code_simp

text \<open>
  What does hold of the lookup, under conditions that exclude both runs above.  Take an
  Object \<open>ob\<close> that is empty (\<^verbatim>\<open>root\<close> and \<^verbatim>\<open>first\<close> are \<^verbatim>\<open>NULL\<close>) and an Array
  \<open>ar\<close> that is empty and has the \<^verbatim>\<open>count\<close> 0; nodes \<open>kvs\<close> to add to the object
  under keys that differ pairwise under case folding, and at most 2147483647 nodes
  \<open>xs\<close> to append to the array.  The nodes are allocated, pairwise different and different
  from their container; those for the object have no key yet (\<^verbatim>\<open>string\<close> is \<^verbatim>\<open>NULL\<close>);
  the allocator has handed out every address in use and grants one buffer for each key
  (\<open>length kvs \<le> avail s\<close>).  Then both runs of additions return.  After them
  \<^verbatim>\<open>cJSON_GetObjectItem\<close> returns, for every key that \<^verbatim>\<open>cJSON_strcasecmp\<close> finds equal
  to the key of a member, that member, and \<^verbatim>\<open>NULL\<close> for a key equal to none of them;
  \<^verbatim>\<open>cJSON_GetArrayItem\<close> returns the \<open>i\<close>-th appended node for the ordinal \<open>i\<close>, and
  \<^verbatim>\<open>NULL\<close> for every ordinal that is negative or not below the number of elements.
\<close>

theorem lookup_round_trip:
  assumes obj: "nodes s ob = Some on" "is_object on" "root on = None" "first on = None"
    and heap: "heap_ok s" "length kvs \<le> avail s"
    and mem: "distinct (map snd kvs)" "ob \<notin> snd ` set kvs"
      "\<forall>x\<in>snd ` set kvs. \<exists>n. nodes s x = Some n \<and> string n = None"
    and keys: "distinct (map (\<lambda>(k, x). fold_case k) kvs)"
    and arr: "nodes s ar = Some an" "is_array an" "root an = None" "first an = None"
      "count an = 0"
    and els: "distinct xs" "ar \<notin> set xs" "\<forall>x\<in>set xs. nodes s x \<noteq> None"
      "length xs \<le> 2147483647"
  shows "(\<exists>s'. add_members kvs (Some ob) s = ret s' \<and>
           (\<forall>(k, x)\<in>set kvs. \<forall>k'. cJSON_strcasecmp (Some k') (Some k) = 0 \<longrightarrow>
               cJSON_GetObjectItem s' (Some ob) (Some k') = ret (Some x)) \<and>
           (\<forall>k'. (\<forall>(k, x)\<in>set kvs. cJSON_strcasecmp (Some k') (Some k) \<noteq> 0) \<longrightarrow>
               cJSON_GetObjectItem s' (Some ob) (Some k') = ret None)) \<and>
         (\<exists>s'. append_items xs (Some ar) s = ret s' \<and>
           (\<forall>i<length xs. cJSON_GetArrayItem s' (Some ar) (int i) = ret (Some (xs ! i))) \<and>
           (\<forall>i. i < 0 \<or> int (length xs) \<le> i \<longrightarrow> cJSON_GetArrayItem s' (Some ar) i = ret None))"
proof (rule conjI)
  from add_members_empty[OF obj heap mem keys]
  obtain s' t' on' where r: "add_members kvs (Some ob) s = ret s'" "tree_inv s' ob t'"
    "set (inorder t') = snd ` set kvs" "nodes s' ob = Some on'" "is_object on'"
    "\<forall>(k, x)\<in>set kvs. member_key s' x = ret (Some (c_str k))"
    by blast
  have hit: "\<forall>(k, x)\<in>set kvs. \<forall>k'. cJSON_strcasecmp (Some k') (Some k) = 0 \<longrightarrow>
               cJSON_GetObjectItem s' (Some ob) (Some k') = ret (Some x)"
  proof (intro ballI, clarify)
    fix k x k' assume h: "(k, x) \<in> set kvs" "cJSON_strcasecmp (Some k') (Some k) = 0"
    then have "member_key s' x = ret (Some (c_str k))" using r(6) by auto
    then have "rank_of s' True x = rank_str k" using member_key_rank by fastforce
    moreover have "rank_str k = rank_str k'" using h(2) by (simp add: strcasecmp_fold rank_str_eq_iff)
    moreover have "x \<in> set (inorder t')" using h(1) r(3) by force
    ultimately show "cJSON_GetObjectItem s' (Some ob) (Some k') = ret (Some x)"
      using GetObjectItem_found[OF r(2,4,5)] by simp
  qed
  have miss: "\<forall>k'. (\<forall>(k, x)\<in>set kvs. cJSON_strcasecmp (Some k') (Some k) \<noteq> 0) \<longrightarrow>
               cJSON_GetObjectItem s' (Some ob) (Some k') = ret None"
  proof (intro allI impI)
    fix k' assume h: "\<forall>(k, x)\<in>set kvs. cJSON_strcasecmp (Some k') (Some k) \<noteq> 0"
    have "\<forall>a\<in>set (inorder t'). rank_of s' True a \<noteq> prank True (Some k') 0"
    proof
      fix a assume "a \<in> set (inorder t')"
      then obtain k where k: "(k, a) \<in> set kvs" using r(3) by auto
      then have "member_key s' a = ret (Some (c_str k))" using r(6) by auto
      then have "rank_of s' True a = rank_str k" using member_key_rank by fastforce
      moreover have "rank_str k \<noteq> rank_str k'"
        using h k by (auto simp: strcasecmp_fold rank_str_eq_iff)
      ultimately show "rank_of s' True a \<noteq> prank True (Some k') 0" by (simp add: prank_def)
    qed
    then show "cJSON_GetObjectItem s' (Some ob) (Some k') = ret None"
      using GetObjectItem_missing[OF r(2,4,5)] by simp
  qed
  show "\<exists>s'. add_members kvs (Some ob) s = ret s' \<and>
           (\<forall>(k, x)\<in>set kvs. \<forall>k'. cJSON_strcasecmp (Some k') (Some k) = 0 \<longrightarrow>
               cJSON_GetObjectItem s' (Some ob) (Some k') = ret (Some x)) \<and>
           (\<forall>k'. (\<forall>(k, x)\<in>set kvs. cJSON_strcasecmp (Some k') (Some k) \<noteq> 0) \<longrightarrow>
               cJSON_GetObjectItem s' (Some ob) (Some k') = ret None)"
    using r(1) hit miss by blast
next
  from append_items_empty[OF arr els]
  obtain s' t' an' where r: "append_items xs (Some ar) s = ret s'" "tree_inv s' ar t'"
    "inorder t' = xs" "nodes s' ar = Some an'" "is_array an'" "numbered s' xs"
    by blast
  have hit: "\<forall>i<length xs. cJSON_GetArrayItem s' (Some ar) (int i) = ret (Some (xs ! i))"
  proof (intro allI impI)
    fix i assume i: "i < length xs"
    then have "rank_of s' False (xs ! i) = [int i]" using numbered_nth[OF r(6)] by simp
    moreover have "xs ! i \<in> set (inorder t')" using i r(3) by simp
    ultimately show "cJSON_GetArrayItem s' (Some ar) (int i) = ret (Some (xs ! i))"
      using GetArrayItem_found[OF r(2,4,5)] by simp
  qed
  have miss: "\<forall>i. i < 0 \<or> int (length xs) \<le> i \<longrightarrow> cJSON_GetArrayItem s' (Some ar) i = ret None"
  proof (intro allI impI)
    fix i :: int assume i: "i < 0 \<or> int (length xs) \<le> i"
    have "\<forall>a\<in>set (inorder t'). rank_of s' False a \<noteq> [i]"
    proof
      fix a assume "a \<in> set (inorder t')"
      then obtain j where "j < length xs" "rank_of s' False a = [int j]"
        using numbered_bound[OF r(6)] r(3) by blast
      then show "rank_of s' False a \<noteq> [i]" using i by auto
    qed
    then show "cJSON_GetArrayItem s' (Some ar) i = ret None"
      using GetArrayItem_missing[OF r(2,4,5)] by simp
  qed
  show "\<exists>s'. append_items xs (Some ar) s = ret s' \<and>
           (\<forall>i<length xs. cJSON_GetArrayItem s' (Some ar) (int i) = ret (Some (xs ! i))) \<and>
           (\<forall>i. i < 0 \<or> int (length xs) \<le> i \<longrightarrow> cJSON_GetArrayItem s' (Some ar) i = ret None)"
    using r(1) hit miss by blast
qed

theorem lookup_round_trip_witness:
  "(\<exists>s'. add_members [(''b'', 3), (''A'', 4)] (Some 1) ex_state = ret s' \<and>
      cJSON_GetObjectItem s' (Some 1) (Some ''B'') = ret (Some 3) \<and>
      cJSON_GetObjectItem s' (Some 1) (Some ''a'') = ret (Some 4) \<and>
      cJSON_GetObjectItem s' (Some 1) (Some ''c'') = ret None) \<and>
   (\<exists>s'. append_items [5, 6] (Some 2) ex_state = ret s' \<and>
      cJSON_GetArrayItem s' (Some 2) 0 = ret (Some 5) \<and>
      cJSON_GetArrayItem s' (Some 2) 1 = ret (Some 6) \<and>
      cJSON_GetArrayItem s' (Some 2) 2 = ret None)"
proof -
  have h: "nodes ex_state 1 = Some (zero_item\<lparr>kind := cJSON_Object\<rparr>)"
    "is_object (zero_item\<lparr>kind := cJSON_Object\<rparr>)"
    "root (zero_item\<lparr>kind := cJSON_Object\<rparr>) = None"
    "first (zero_item\<lparr>kind := cJSON_Object\<rparr>) = None"
    "heap_ok ex_state" "length [(''b'', 3::nat), (''A'', 4)] \<le> avail ex_state"
    "distinct (map snd [(''b'', 3::nat), (''A'', 4)])"
    "1 \<notin> snd ` set [(''b'', 3::nat), (''A'', 4)]"
    "\<forall>x\<in>snd ` set [(''b'', 3::nat), (''A'', 4)].
        \<exists>n. nodes ex_state x = Some n \<and> string n = None"
    by (auto simp: ex_state_def zero_item_def is_object_def heap_ok_def split: if_splits)
  have k: "distinct (map (\<lambda>(k, x). fold_case k) [(''b'', 3::nat), (''A'', 4)])"
    by (simp add: fold_case_def c_str_def tolower_def)
  have a: "nodes ex_state 2 = Some (zero_item\<lparr>kind := cJSON_Array\<rparr>)"
    "is_array (zero_item\<lparr>kind := cJSON_Array\<rparr>)"
    "root (zero_item\<lparr>kind := cJSON_Array\<rparr>) = None"
    "first (zero_item\<lparr>kind := cJSON_Array\<rparr>) = None"
    "count (zero_item\<lparr>kind := cJSON_Array\<rparr>) = 0"
    "distinct [5::nat, 6]" "2 \<notin> set [5::nat, 6]" "\<forall>x\<in>set [5::nat, 6]. nodes ex_state x \<noteq> None"
    "length [5::nat, 6] \<le> 2147483647"
    by (auto simp: ex_state_def zero_item_def is_array_def)
  have c: "cJSON_strcasecmp (Some ''B'') (Some ''b'') = 0"
    "cJSON_strcasecmp (Some ''a'') (Some ''A'') = 0"
    "cJSON_strcasecmp (Some ''c'') (Some ''b'') \<noteq> 0"
    "cJSON_strcasecmp (Some ''c'') (Some ''A'') \<noteq> 0"
    by (simp_all add: strcasecmp_fold fold_case_def c_str_def tolower_def)
  from lookup_round_trip[OF h k a]
  obtain s' s'' where r: "add_members [(''b'', 3), (''A'', 4)] (Some 1) ex_state = ret s'"
    "\<forall>(k, x)\<in>set [(''b'', 3::nat), (''A'', 4)]. \<forall>k'. cJSON_strcasecmp (Some k') (Some k) = 0 \<longrightarrow>
               cJSON_GetObjectItem s' (Some 1) (Some k') = ret (Some x)"
    "\<forall>k'. (\<forall>(k, x)\<in>set [(''b'', 3::nat), (''A'', 4)]. cJSON_strcasecmp (Some k') (Some k) \<noteq> 0) \<longrightarrow>
               cJSON_GetObjectItem s' (Some 1) (Some k') = ret None"
    "append_items [5, 6] (Some 2) ex_state = ret s''"
    "\<forall>i<length [5::nat, 6]. cJSON_GetArrayItem s'' (Some 2) (int i) = ret (Some ([5, 6] ! i))"
    "\<forall>i. i < 0 \<or> int (length [5::nat, 6]) \<le> i \<longrightarrow> cJSON_GetArrayItem s'' (Some 2) i = ret None"
    by blast
  have "cJSON_GetObjectItem s' (Some 1) (Some ''B'') = ret (Some 3)"
    "cJSON_GetObjectItem s' (Some 1) (Some ''a'') = ret (Some 4)"
    using r(2) c(1,2) by auto
  moreover have "cJSON_GetObjectItem s' (Some 1) (Some ''c'') = ret None"
    using r(3)[rule_format, of "''c''"] c(3,4) by auto
  moreover have "cJSON_GetArrayItem s'' (Some 2) 0 = ret (Some 5)"
    "cJSON_GetArrayItem s'' (Some 2) 1 = ret (Some 6)"
    using r(5)[rule_format, of 0] r(5)[rule_format, of 1] by simp_all
  moreover have "cJSON_GetArrayItem s'' (Some 2) 2 = ret None"
    using r(6)[rule_format, of 2] by simp
  ultimately show ?thesis using r(1,4) by blast
qed


section \<open>The order of traversal\<close>

text \<open>
  C1 (order of traversal: in an array the ordinals 0, 1, ..., n - 1, and in an object the
  members in ascending case-insensitive key order, so that the keys b, A, c are enumerated as
  A, b, c).  The members added under the keys b, A, c are enumerated as c, b, A.  Both
  branches of \<^verbatim>\<open>tree_lookup\<close> end in the test \<^verbatim>\<open>res > 0\<close>, on which the search goes
  left; the array branch sets \<^verbatim>\<open>res\<close> to 1 where the ordinal of the node is the greater
  one, the object branch to \<^verbatim>\<open>cJSON_strcasecmp(key, object->string)\<close>, which is positive
  where the key of the node is the smaller one.  So the greater keys go to the left in an
  object, and the traversal, which is ascending for an array, is descending for an object.
\<close>

theorem object_traversal_descends:
  "bnd (object_of [''b'', ''A'', ''c'']) (\<lambda>(ob, s).
   bnd (traversal s ob) (\<lambda>ys. keys_of s ys)) = ret [Some ''c'', Some ''b'', Some ''A'']"
  by code_simp

text \<open>
  What does hold of the order, with the direction that the code has, under the conditions of
  the round trip above.  Take an Array \<open>ar\<close> that is empty and has the \<^verbatim>\<open>count\<close> 0,
  and at most 2147483647 nodes \<open>xs\<close> to append to it; an Object \<open>ob\<close> that is empty,
  and nodes \<open>kvs\<close> to add to it under keys that differ pairwise under case folding.  The
  nodes are allocated, pairwise different and different from their container; those for the
  object have no key yet (\<^verbatim>\<open>string\<close> is \<^verbatim>\<open>NULL\<close>); the allocator has handed out
  every address in use and grants one buffer for each key (\<open>length kvs \<le> avail s\<close>).
  Then the traversal of the array from \<^verbatim>\<open>first\<close> by \<^verbatim>\<open>child_next\<close> yields \<open>xs\<close> in
  the order of the appends, with the ordinals 0, 1, ..., n - 1.  The traversal of the
  object yields every member once, each with the key it was added under, in
  \<^emph>\<open>descending\<close> case-insensitive key order: each key compares greater, by
  \<^verbatim>\<open>cJSON_strcasecmp\<close>, than every key after it.
\<close>

theorem traversal_order:
  assumes arr: "nodes s ar = Some an" "is_array an" "root an = None" "first an = None"
      "count an = 0"
    and els: "distinct xs" "ar \<notin> set xs" "\<forall>x\<in>set xs. nodes s x \<noteq> None"
      "length xs \<le> 2147483647"
    and obj: "nodes s ob = Some on" "is_object on" "root on = None" "first on = None"
    and heap: "heap_ok s" "length kvs \<le> avail s"
    and mem: "distinct (map snd kvs)" "ob \<notin> snd ` set kvs"
      "\<forall>x\<in>snd ` set kvs. \<exists>n. nodes s x = Some n \<and> string n = None"
    and keys: "distinct (map (\<lambda>(k, x). fold_case k) kvs)"
  shows "(\<exists>s'. append_items xs (Some ar) s = ret s' \<and> traversal s' (Some ar) = ret xs \<and>
              indices_of s' xs = ret (map int [0..<length xs])) \<and>
         (\<exists>s' ys ks. add_members kvs (Some ob) s = ret s' \<and>
              traversal s' (Some ob) = ret ys \<and> keys_of s' ys = ret (map Some ks) \<and>
              distinct ys \<and> set (zip ks ys) = (\<lambda>(k, x). (c_str k, x)) ` set kvs \<and>
              sorted_wrt (\<lambda>a b. 0 < cJSON_strcasecmp (Some a) (Some b)) ks)"
proof (rule conjI)
  from append_items_empty[OF arr els]
  obtain s' t' an' where r: "append_items xs (Some ar) s = ret s'" "tree_inv s' ar t'"
    "inorder t' = xs" "numbered s' xs"
    by blast
  have "traversal s' (Some ar) = ret xs" using traversal_inv[OF r(2)] r(3) by simp
  moreover have "indices_of s' xs = ret (map int [0..<length xs])"
    using indices_of_numbered[OF r(4)] tree_inv_alloc[OF r(2)] r(3) by blast
  ultimately show "\<exists>s'. append_items xs (Some ar) s = ret s' \<and> traversal s' (Some ar) = ret xs \<and>
              indices_of s' xs = ret (map int [0..<length xs])"
    using r(1) by blast
next
  from add_members_empty[OF obj heap mem keys]
  obtain s' t' on' where r: "add_members kvs (Some ob) s = ret s'" "tree_inv s' ob t'"
    "set (inorder t') = snd ` set kvs" "nodes s' ob = Some on'" "is_object on'"
    "\<forall>(k, x)\<in>set kvs. member_key s' x = ret (Some (c_str k))"
    by blast
  let ?ys = "inorder t'"
  have "\<forall>a\<in>set ?ys. \<exists>kk. member_key s' a = ret (Some kk)"
    using r(3,6) by fastforce
  then obtain f where f: "\<forall>a\<in>set ?ys. member_key s' a = ret (Some (f a))"
    by metis
  have fk: "\<And>k x. (k, x) \<in> set kvs \<Longrightarrow> f x = c_str k"
  proof -
    fix k x assume h: "(k, x) \<in> set kvs"
    then have "member_key s' x = ret (Some (c_str k))" using r(6) by auto
    moreover have "x \<in> set ?ys" using h r(3) by force
    ultimately show "f x = c_str k" using f by simp
  qed
  have tr: "traversal s' (Some ob) = ret ?ys" using traversal_inv[OF r(2)] .
  have ko: "keys_of s' ?ys = ret (map Some (map f ?ys))"
    using keys_of_members[OF f] by (simp add: comp_def)
  have di: "distinct ?ys" using tree_inv_distinct[OF r(2)] .
  have "set (zip (map f ?ys) ?ys) = (\<lambda>a. (f a, a)) ` set ?ys"
    by (rule zip_map_self)
  also have "\<dots> = (\<lambda>(k, x). (c_str k, x)) ` set kvs"
    unfolding r(3) image_image
  proof (rule image_cong)
    fix p assume h: "p \<in> set kvs"
    obtain k x where p: "p = (k, x)" by (cases p)
    show "(f (snd p), snd p) = (case p of (k, x) \<Rightarrow> (c_str k, x))"
      using fk[of k x] h p by simp
  qed simp
  finally have zp: "set (zip (map f ?ys) ?ys) = (\<lambda>(k, x). (c_str k, x)) ` set kvs" .
  have "sorted_wrt (<) (map (rank_of s' True) ?ys)"
    using r(2,4,5) by (auto simp: tree_inv_def)
  moreover have "map (rank_of s' True) ?ys = map (\<lambda>a. rank_str (f a)) ?ys"
    using f member_key_rank by simp
  ultimately have "sorted_wrt (\<lambda>a b. rank_str a < rank_str b) (map f ?ys)"
    by (simp add: sorted_wrt_map del: map_eq_conv)
  then have so: "sorted_wrt (\<lambda>a b. 0 < cJSON_strcasecmp (Some a) (Some b)) (map f ?ys)"
    by (simp add: strcasecmp_rank)
  show "\<exists>s' ys ks. add_members kvs (Some ob) s = ret s' \<and>
              traversal s' (Some ob) = ret ys \<and> keys_of s' ys = ret (map Some ks) \<and>
              distinct ys \<and> set (zip ks ys) = (\<lambda>(k, x). (c_str k, x)) ` set kvs \<and>
              sorted_wrt (\<lambda>a b. 0 < cJSON_strcasecmp (Some a) (Some b)) ks"
    using r(1) tr ko di zp so by blast
qed

theorem traversal_order_witness:
  "(\<exists>s'. append_items [5, 6] (Some 2) ex_state = ret s' \<and>
      traversal s' (Some 2) = ret [5, 6] \<and> indices_of s' [5, 6] = ret [0, 1]) \<and>
   (\<exists>s' ys ks. add_members [(''b'', 3), (''A'', 4)] (Some 1) ex_state = ret s' \<and>
      traversal s' (Some 1) = ret ys \<and> keys_of s' ys = ret (map Some ks) \<and>
      distinct ys \<and> set (zip ks ys) = {(''b'', 3), (''A'', 4)} \<and>
      sorted_wrt (\<lambda>a b. 0 < cJSON_strcasecmp (Some a) (Some b)) ks)"
proof -
  have h: "nodes ex_state 1 = Some (zero_item\<lparr>kind := cJSON_Object\<rparr>)"
    "is_object (zero_item\<lparr>kind := cJSON_Object\<rparr>)"
    "root (zero_item\<lparr>kind := cJSON_Object\<rparr>) = None"
    "first (zero_item\<lparr>kind := cJSON_Object\<rparr>) = None"
    "heap_ok ex_state" "length [(''b'', 3::nat), (''A'', 4)] \<le> avail ex_state"
    "distinct (map snd [(''b'', 3::nat), (''A'', 4)])"
    "1 \<notin> snd ` set [(''b'', 3::nat), (''A'', 4)]"
    "\<forall>x\<in>snd ` set [(''b'', 3::nat), (''A'', 4)].
        \<exists>n. nodes ex_state x = Some n \<and> string n = None"
    by (auto simp: ex_state_def zero_item_def is_object_def heap_ok_def split: if_splits)
  have k: "distinct (map (\<lambda>(k, x). fold_case k) [(''b'', 3::nat), (''A'', 4)])"
    by (simp add: fold_case_def c_str_def tolower_def)
  have a: "nodes ex_state 2 = Some (zero_item\<lparr>kind := cJSON_Array\<rparr>)"
    "is_array (zero_item\<lparr>kind := cJSON_Array\<rparr>)"
    "root (zero_item\<lparr>kind := cJSON_Array\<rparr>) = None"
    "first (zero_item\<lparr>kind := cJSON_Array\<rparr>) = None"
    "count (zero_item\<lparr>kind := cJSON_Array\<rparr>) = 0"
    "distinct [5::nat, 6]" "2 \<notin> set [5::nat, 6]" "\<forall>x\<in>set [5::nat, 6]. nodes ex_state x \<noteq> None"
    "length [5::nat, 6] \<le> 2147483647"
    by (auto simp: ex_state_def zero_item_def is_array_def)
  from traversal_order[OF a h k]
  obtain s'' s' ys ks where r: "append_items [5, 6] (Some 2) ex_state = ret s''"
    "traversal s'' (Some 2) = ret [5, 6]"
    "indices_of s'' [5, 6] = ret (map int [0..<length [5::nat, 6]])"
    "add_members [(''b'', 3), (''A'', 4)] (Some 1) ex_state = ret s'"
    "traversal s' (Some 1) = ret ys" "keys_of s' ys = ret (map Some ks)"
    "distinct ys" "set (zip ks ys) = (\<lambda>(k, x). (c_str k, x)) ` set [(''b'', 3::nat), (''A'', 4)]"
    "sorted_wrt (\<lambda>a b. 0 < cJSON_strcasecmp (Some a) (Some b)) ks"
    by blast
  have "indices_of s'' [5, 6] = ret [0, 1]" using r(3) by (simp add: upt_rec)
  moreover have "set (zip ks ys) = {(''b'', 3), (''A'', 4)}"
    using r(8) by (simp add: c_str_def)
  ultimately show ?thesis using r(1,2,4,5,6,7,9) by blast
qed


section \<open>Key collisions\<close>

text \<open>
  C6 (key collision: after two additions under the same key the lookup returns the first
  node, the first node is untouched and the second is not attached).  Where the allocator
  refuses the copy of the second key, \<^verbatim>\<open>cJSON_AddItemToObject\<close> stores the \<^verbatim>\<open>NULL\<close>
  that \<^verbatim>\<open>cJSON_strdup\<close> returns as the key of the second node, unchecked, and inserts the
  node: \<^verbatim>\<open>cJSON_strcasecmp\<close> finds a \<^verbatim>\<open>NULL\<close> key different from the key x, there is no
  collision.  With room for four allocations, the nodes 2 and 4 are added under the key x;
  the field \<^verbatim>\<open>left\<close> of the node 2, \<^verbatim>\<open>NULL\<close> before the second addition, then points at
  the node 4, whose \<^verbatim>\<open>parent\<close> is the node 2, and the traversal visits the node 4, then
  the node 2.
\<close>

theorem refused_key_copy_attaches_second:
  "bnd (cJSON_CreateObject (s0\<lparr>avail := 4\<rparr>)) (\<lambda>(ob, s1).
   bnd (cJSON_CreateNull s1) (\<lambda>(n1, s2).
   bnd (cJSON_AddItemToObject ob (Some ''x'') n1 s2) (\<lambda>s3.
   bnd (cJSON_CreateNull s3) (\<lambda>(n2, s4).
   bnd (get s4 n1 left) (\<lambda>l0.
   bnd (cJSON_AddItemToObject ob (Some ''x'') n2 s4) (\<lambda>s5.
   bnd (traversal s5 ob) (\<lambda>t.
   bnd (get s5 n1 left) (\<lambda>l.
   bnd (get s5 n2 parent) (\<lambda>p.
   bnd (get s5 n2 string) (\<lambda>k. ret (n1, n2, l0, t, l, p, k)))))))))))
   = ret (Some 2, Some 4, None, [4, 2], Some 4, Some 2, None)"
  by code_simp

text \<open>
  What does hold of a collision, where the allocator grants the copies of the keys.  An
  object is built from an empty Object by adding members with keys that differ pairwise
  under case folding, the last of them the node \<open>x1\<close> under the key \<open>k1\<close>; then the node
  \<open>x2\<close> is added under a key \<open>k2\<close> that \<^verbatim>\<open>cJSON_strcasecmp\<close> finds equal to \<open>k1\<close>.
  The nodes are allocated, pairwise different and different from the object, and have no key
  yet (\<^verbatim>\<open>string\<close> is \<^verbatim>\<open>NULL\<close>); the allocator has handed out every address in use and
  grants one buffer for each key, that of \<open>k2\<close> too (\<open>length kvs + 2 \<le> avail s\<close>).
  Then both calls return, and \<^verbatim>\<open>tree_insert_item\<close>, in the state the second call leaves,
  returns the node \<open>x1\<close> and changes nothing.  Afterwards \<^verbatim>\<open>cJSON_GetObjectItem\<close> returns
  \<open>x1\<close> for either key; the node \<open>x1\<close> and its key are as they were before the second
  call; the traversal is the same as before the second call, it visits \<open>x1\<close> and does not
  visit \<open>x2\<close>; and the link fields of \<open>x2\<close> are as they were: it is not attached.
\<close>

theorem collision_keeps_first:
  assumes obj: "nodes s ob = Some on" "is_object on" "root on = None" "first on = None"
    and heap: "heap_ok s" "length kvs + 2 \<le> avail s"
    and mem: "distinct (map snd kvs @ [x1, x2])" "ob \<notin> snd ` set kvs" "ob \<noteq> x1" "ob \<noteq> x2"
      "\<forall>x\<in>insert x1 (insert x2 (snd ` set kvs)). \<exists>n. nodes s x = Some n \<and> string n = None"
    and keys: "distinct (map (\<lambda>(k, x). fold_case k) (kvs @ [(k1, x1)]))"
    and coll: "cJSON_strcasecmp (Some k2) (Some k1) = 0"
  shows "\<exists>s1 s2 ys. add_members (kvs @ [(k1, x1)]) (Some ob) s = ret s1 \<and>
           cJSON_AddItemToObject (Some ob) (Some k2) (Some x2) s1 = ret s2 \<and>
           tree_insert_item (Some x2) (Some ob) s2 = ret (Some x1, s2) \<and>
           cJSON_GetObjectItem s2 (Some ob) (Some k1) = ret (Some x1) \<and>
           cJSON_GetObjectItem s2 (Some ob) (Some k2) = ret (Some x1) \<and>
           nodes s2 x1 = nodes s1 x1 \<and> member_key s2 x1 = member_key s1 x1 \<and>
           traversal s1 (Some ob) = ret ys \<and> traversal s2 (Some ob) = ret ys \<and>
           x1 \<in> set ys \<and> x2 \<notin> set ys \<and>
           links (nodes s2 x2) = links (nodes s1 x2)"
proof -
  let ?kvs = "kvs @ [(k1, x1)]"
  have m: "length ?kvs \<le> avail s" "distinct (map snd ?kvs)" "ob \<notin> snd ` set ?kvs"
    "\<forall>x\<in>snd ` set ?kvs. \<exists>n. nodes s x = Some n \<and> string n = None"
    using heap(2) mem by auto
  from add_members_empty[OF obj heap(1) m keys]
  obtain s1 t1 on1 where r: "add_members ?kvs (Some ob) s = ret s1" "tree_inv s1 ob t1"
    "set (inorder t1) = snd ` set ?kvs" "nodes s1 ob = Some on1" "is_object on1"
    "\<forall>(k, x)\<in>set ?kvs. member_key s1 x = ret (Some (c_str k))"
    "heap_ok s1" "avail s1 = avail s - length ?kvs"
    "\<forall>y n. nodes s y = Some n \<longrightarrow> y \<notin> snd ` set ?kvs \<longrightarrow> y \<noteq> ob \<longrightarrow>
         (\<exists>n'. nodes s1 y = Some n' \<and> prel n n')"
    by blast
  have av: "0 < avail s1" using r(8) heap(2) by simp
  obtain n where n: "nodes s x2 = Some n" "string n = None" using mem(5) by auto
  have x2k: "x2 \<notin> snd ` set ?kvs" using mem(1) by auto
  then obtain n2 where n2: "nodes s1 x2 = Some n2" "prel n n2" using r(9) n(1) mem(4) by blast
  then have sn2: "string n2 = None" using n(2) by (simp add: prel_def)
  have x2t: "x2 \<notin> set (inorder t1)" using x2k r(3) by simp
  have x1t: "x1 \<in> set (inorder t1)" using r(3) by simp
  have mk1: "member_key s1 x1 = ret (Some (c_str k1))" using r(6) by simp
  then have rk1: "rank_of s1 True x1 = rank_str k1" using member_key_rank by fastforce
  have k12: "rank_str k2 = rank_str k1" using coll by (simp add: strcasecmp_fold rank_str_eq_iff)
  define s2 where "s2 = s1\<lparr>brk := Suc (brk s1), avail := avail s1 - 1,
              bufs := (bufs s1)(brk s1 \<mapsto> c_str k2),
              nodes := (nodes s1)(x2 \<mapsto> n2\<lparr>string := Some (brk s1)\<rparr>,
                                 ob \<mapsto> on1\<lparr>count := int32 (count on1 + 1)\<rparr>)\<rparr>"
  have rk1': "rank_of s1 True x1 = rank_str k2" using rk1 k12 by simp
  from AddItemToObject_found[OF r(2,4,5,7) av n2(1) sn2 x2t mem(4)[symmetric] x1t rk1' s2_def]
  have f: "cJSON_AddItemToObject (Some ob) (Some k2) (Some x2) s1 = ret s2" "tree_inv s2 ob t1"
    "\<forall>a\<in>set (inorder t1). rank_of s2 True a = rank_of s1 True a"
    "tree_insert_item (Some x2) (Some ob) s2 = ret (Some x1, s2)"
    by auto
  have ob2: "nodes s2 ob = Some (on1\<lparr>count := int32 (count on1 + 1)\<rparr>)"
    "is_object (on1\<lparr>count := int32 (count on1 + 1)\<rparr>)"
    using r(5) by (simp_all add: s2_def is_object_def)
  have rk2: "rank_of s2 True x1 = rank_str k1" using f(3) x1t rk1 by simp
  have g1: "cJSON_GetObjectItem s2 (Some ob) (Some k1) = ret (Some x1)"
    using GetObjectItem_found[OF f(2) ob2 x1t rk2] .
  have g2: "cJSON_GetObjectItem s2 (Some ob) (Some k2) = ret (Some x1)"
    using GetObjectItem_found[OF f(2) ob2 x1t, of k2] rk2 k12 by simp
  have x12: "x1 \<noteq> x2" using mem(1) by auto
  have same: "nodes s2 x1 = nodes s1 x1" using x12 mem(3) by (simp add: s2_def)
  from mk1 obtain m1 b where b: "nodes s1 x1 = Some m1" "string m1 = Some b"
    "bufs s1 b = Some (c_str k1)"
    by (auto simp: member_key_Some)
  have "b \<noteq> brk s1" using r(7) b(3) by (auto simp: heap_ok_def)
  then have "member_key s2 x1 = ret (Some (c_str k1))"
    using b same by (simp add: member_key_Some s2_def)
  then have mk: "member_key s2 x1 = member_key s1 x1" using mk1 by simp
  have t1: "traversal s1 (Some ob) = ret (inorder t1)" using traversal_inv[OF r(2)] .
  have t2: "traversal s2 (Some ob) = ret (inorder t1)" using traversal_inv[OF f(2)] .
  have lk: "links (nodes s2 x2) = links (nodes s1 x2)"
    using n2(1) mem(4) by (simp add: s2_def links_def)
  show ?thesis using r(1) f(1,4) g1 g2 same mk t1 t2 x1t x2t lk by blast
qed

theorem collision_keeps_first_witness:
  "\<exists>s1 s2. add_members [(''id'', 3), (''x'', 4)] (Some 1) ex_state = ret s1 \<and>
      cJSON_AddItemToObject (Some 1) (Some ''X'') (Some 5) s1 = ret s2 \<and>
      tree_insert_item (Some 5) (Some 1) s2 = ret (Some 4, s2) \<and>
      cJSON_GetObjectItem s2 (Some 1) (Some ''x'') = ret (Some 4) \<and>
      nodes s2 4 = nodes s1 4 \<and>
      (\<exists>ys. traversal s2 (Some 1) = ret ys \<and> 4 \<in> set ys \<and> 5 \<notin> set ys) \<and>
      links (nodes s2 5) = links (nodes s1 5)"
proof -
  have h: "nodes ex_state 1 = Some (zero_item\<lparr>kind := cJSON_Object\<rparr>)"
    "is_object (zero_item\<lparr>kind := cJSON_Object\<rparr>)"
    "root (zero_item\<lparr>kind := cJSON_Object\<rparr>) = None"
    "first (zero_item\<lparr>kind := cJSON_Object\<rparr>) = None"
    "heap_ok ex_state" "length [(''id'', 3::nat)] + 2 \<le> avail ex_state"
    "distinct (map snd [(''id'', 3::nat)] @ [4, 5])" "1 \<notin> snd ` set [(''id'', 3::nat)]"
    "(1::nat) \<noteq> 4" "(1::nat) \<noteq> 5"
    "\<forall>x\<in>insert 4 (insert 5 (snd ` set [(''id'', 3::nat)])).
        \<exists>n. nodes ex_state x = Some n \<and> string n = None"
    by (auto simp: ex_state_def zero_item_def is_object_def heap_ok_def split: if_splits)
  have k: "distinct (map (\<lambda>(k, x). fold_case k) ([(''id'', 3::nat)] @ [(''x'', 4)]))"
    by (simp add: fold_case_def c_str_def tolower_def)
  have c: "cJSON_strcasecmp (Some ''X'') (Some ''x'') = 0"
    by (simp add: strcasecmp_fold fold_case_def c_str_def tolower_def)
  from collision_keeps_first[OF h k c] show ?thesis by auto
qed


section \<open>References and destruction\<close>

text \<open>
  The run of the interface behind C8: the Object 1 owns the String node 2 with the payload in
  the buffer 3 (and the key in the buffer 4), the Array 5 holds the reference 6 to it.
  Deleting the array releases the reference and the array; the payload can still be read
  through the owner; deleting the object then releases the payload, once.
\<close>

theorem reference_scenario:
  "bnd (cJSON_CreateObject s0) (\<lambda>(a, s1).
   bnd (cJSON_CreateString (Some ''hi'') s1) (\<lambda>(str, s2).
   bnd (cJSON_AddItemToObject a (Some ''k'') str s2) (\<lambda>s3.
   bnd (cJSON_CreateArray s3) (\<lambda>(b, s4).
   bnd (cJSON_AddItemReferenceToArray b str s4) (\<lambda>s5.
   bnd (cJSON_Delete s5 b) (\<lambda>s6.
   bnd (get s6 str valuestring) (\<lambda>v.
   bnd (rdstr s6 v) (\<lambda>payload.
   bnd (cJSON_Delete s6 a) (\<lambda>s7. ret (freed s6, payload, freed s7))))))))))
   = ret ([5, 6], Some ''hi'', [1, 2, 3, 4, 5, 6])"
  by code_simp




end
